theory Spec2Isabelle
  imports Main "HOL-Library.Word" "HOL-Library.Log_Nat"
begin

unbundle bit_operations_syntax

section \<open>Machine types\<close>

text \<open>
  The encoder runs on a 64-bit little-endian host: \<open>size_t\<close>, \<open>uint64_t\<close> and
  \<open>unsigned long\<close> are 64-bit words, a \<open>char\<close> is one byte, and a scalar copied with
  \<open>memcpy\<close> is laid out low byte first. Byte counts are natural numbers; where the source
  computes on \<open>size_t\<close> with a subtraction, a shift or a mask, the wrap-around is written
  out.
\<close>

type_synonym byte = "8 word"
type_synonym uint64 = "64 word"

text \<open>
  Signed integers are mathematical integers. \<open>int64_t n\<close> and \<open>int32_t n\<close> are the values \<open>n\<close>
  has in a variable of the signed 64-bit and 32-bit types: the low 64 or 32 bits, read in
  two's complement. They are the identity on the range of the type; an addition that
  leaves the range of \<open>int64_t\<close> wraps around, and a conversion to a narrower type keeps
  the low bits.
\<close>

definition int64_t :: "int \<Rightarrow> int" where
  "int64_t n = sint (word_of_int n :: 64 word)"

definition int32_t :: "int \<Rightarrow> int" where
  "int32_t n = sint (word_of_int n :: 32 word)"

section \<open>RowWriter::calcOccupiedBytes\<close>

text \<open>
  \<open>__builtin_clzl(v)\<close>: the number of leading zero bits of a 64-bit value, counted from
  bit 63 downwards. \<open>clz_from n v\<close> counts the zero bits from bit \<open>n - 1\<close> down to the
  first set bit. (The builtin is undefined at 0; the caller tests \<open>v == 0\<close> first.)
\<close>

fun clz_from :: "nat \<Rightarrow> uint64 \<Rightarrow> nat" where
  "clz_from 0 v = 0"
| "clz_from (Suc n) v = (if bit v n then 0 else Suc (clz_from n v))"

definition builtin_clzl :: "uint64 \<Rightarrow> nat" where
  "builtin_clzl v = clz_from 64 v"

text \<open>
  \<^verbatim>\<open>
  int64_t RowWriter::calcOccupiedBytes(uint64_t v) const noexcept {
      if (v == 0) return 1;
      return 8 - __builtin_clzl(v) / 8;
  }
  \<close>
\<close>

definition calcOccupiedBytes :: "uint64 \<Rightarrow> nat" where
  "calcOccupiedBytes v = (if v = 0 then 1 else 8 - builtin_clzl v div 8)"

section \<open>folly::IOBuf, as Cord uses it\<close>

text \<open>
  \<open>folly::IOBuf\<close> is a library class outside the repository. One buffer of a chain is
  described by the capacity of its storage, the headroom in front of its data and the data
  bytes themselves; its tailroom is what is left behind the data. \<open>IOBuf::create(n)\<close>
  returns an empty buffer of capacity \<open>n\<close> (the library may round the capacity up; the
  model takes the least capacity its contract allows). A chain is the list of its buffers,
  head first; the empty list is the null pointer. \<open>head->prev()\<close> is the last buffer of
  the chain and \<open>head->prependChain(x)\<close> links \<open>x\<close> in front of the head of the circular
  chain, that is, behind the last buffer.
\<close>

record IOBuf =
  capacity :: nat
  headroom :: nat
  data :: "byte list"

definition tailroom :: "IOBuf \<Rightarrow> nat" where
  "tailroom b = capacity b - headroom b - length (data b)"

definition IOBuf_create :: "nat \<Rightarrow> IOBuf" where
  "IOBuf_create cap = \<lparr>capacity = cap, headroom = 0, data = []\<rparr>"

text \<open>
  \<open>IOBuf::reserve(minHeadroom, minTailroom)\<close>: afterwards the buffer has at least that
  much headroom and tailroom and the same data. Nothing happens when both are already
  there; the data is moved inside the storage when the storage is large enough; otherwise
  the storage is reallocated to hold the data, the headroom and the tailroom asked for.
\<close>

definition IOBuf_reserve :: "nat \<Rightarrow> nat \<Rightarrow> IOBuf \<Rightarrow> IOBuf" where
  "IOBuf_reserve minHeadroom minTailroom b =
     (if minHeadroom \<le> headroom b \<and> minTailroom \<le> tailroom b then b
      else if minHeadroom + minTailroom \<le> headroom b + tailroom b
        then b\<lparr>headroom := minHeadroom\<rparr>
      else b\<lparr>capacity := length (data b) + minHeadroom + minTailroom,
              headroom := minHeadroom\<rparr>)"

definition computeChainDataLength :: "IOBuf list \<Rightarrow> nat" where
  "computeChainDataLength chain = sum_list (map (\<lambda>b. length (data b)) chain)"

text \<open>What can go wrong in the C++: a null chain head is dereferenced, bytes are copied
  past the end of a buffer, or the program stops at a failed \<open>CHECK\<close> or \<open>LOG(FATAL)\<close>.\<close>

datatype fault = NullDeref | Overrun | Fatal

section \<open>Cord\<close>

text \<open>
  The members \<open>size_\<close> and \<open>head_\<close> are written \<open>m_size\<close> and \<open>m_head\<close>. \<open>size_\<close> counts
  bytes that are held in memory, so the additions to it do not wrap.
\<close>

record Cord =
  m_size :: nat
  m_head :: "IOBuf list"

definition Cord_new :: Cord where
  "Cord_new = \<lparr>m_size = 0, m_head = []\<rparr>"

definition Cord_size :: "Cord \<Rightarrow> nat" where
  "Cord_size c = m_size c"

definition Cord_empty :: "Cord \<Rightarrow> bool" where
  "Cord_empty c = (Cord_size c = 0)"

definition Cord_clear :: "Cord \<Rightarrow> Cord" where
  "Cord_clear c = c\<lparr>m_head := [], m_size := 0\<rparr>"

text \<open>
  \<^verbatim>\<open>
  static constexpr auto kBufferAlignment = 256UL;
  static constexpr auto kMaxGrowthSize = 256UL << 10;
  size_t alignedSize(size_t size) {
      return (size + kBufferAlignment - 1) & ~(kBufferAlignment - 1);
  }
  \<close>
  Sizes are kept as natural numbers; \<open>alignedSize\<close> computes on the 64-bit word, so the
  sum inside it wraps as the \<open>size_t\<close> sum does.
\<close>

definition kBufferAlignment :: uint64 where
  "kBufferAlignment = 256"

definition kMaxGrowthSize :: nat where
  "kMaxGrowthSize = unat (push_bit 10 (256 :: uint64))"

definition alignedSize :: "nat \<Rightarrow> nat" where
  "alignedSize sz =
     unat ((word_of_nat sz + kBufferAlignment - 1) AND NOT (kBufferAlignment - 1))"

text \<open>The value of a \<open>size_t\<close> expression whose exact result is \<open>n\<close>.\<close>

definition size_t :: "int \<Rightarrow> nat" where
  "size_t n = nat (n mod 2 ^ 64)"

text \<open>
  \<^verbatim>\<open>
  void Cord::makeRoomForWriteSlow(size_t size) {
      auto room = last()->tailroom();
      auto length = last()->length();
      auto capacity = last()->capacity();
      if (length <= capacity / 2) {
          auto need = size - room;
          last()->reserve(0, alignedSize(capacity + need));
          return;
      }
      auto newCapacity = last()->capacity() * 2;
      newCapacity = newCapacity > kMaxGrowthSize ? kMaxGrowthSize : newCapacity;
      newCapacity = newCapacity > size ? newCapacity : size;
      auto newTail = folly::IOBuf::create(newCapacity);
      head_->prependChain(std::move(newTail));
  }
  \<close>
\<close>

definition makeRoomForWriteSlow :: "nat \<Rightarrow> Cord \<Rightarrow> fault + Cord" where
  "makeRoomForWriteSlow sz c =
     (if m_head c = [] then Inl NullDeref
      else
        let t = last (m_head c);
            room = tailroom t;
            len = length (data t);
            cap = capacity t
        in if len \<le> cap div 2 then
             let need = size_t (int sz - int room)
             in Inr (c\<lparr>m_head := butlast (m_head c) @ [IOBuf_reserve 0 (alignedSize (cap + need)) t]\<rparr>)
           else
             let newCapacity = size_t (int cap * 2);
                 newCapacity = (if newCapacity > kMaxGrowthSize then kMaxGrowthSize else newCapacity);
                 newCapacity = (if newCapacity > sz then newCapacity else sz)
             in Inr (c\<lparr>m_head := m_head c @ [IOBuf_create newCapacity]\<rparr>))"

text \<open>
  \<^verbatim>\<open>
  void makeRoomForWrite(size_t size) {
      if (head_ == nullptr) {
          head_ = folly::IOBuf::create(alignedSize(size));
          return;
      }
      auto room = last()->tailroom();
      if (size <= room) {
          return;
      }
      makeRoomForWriteSlow(size);
  }
  \<close>
\<close>

definition makeRoomForWrite :: "nat \<Rightarrow> Cord \<Rightarrow> fault + Cord" where
  "makeRoomForWrite sz c =
     (if m_head c = [] then Inr (c\<lparr>m_head := [IOBuf_create (alignedSize sz)]\<rparr>)
      else
        let room = tailroom (last (m_head c))
        in if sz \<le> room then Inr c else makeRoomForWriteSlow sz c)"

text \<open>The constructor \<open>Cord(size_t reserve)\<close>.\<close>

definition Cord_reserved :: "nat \<Rightarrow> fault + Cord" where
  "Cord_reserved reserve = makeRoomForWrite reserve Cord_new"

text \<open>
  \<open>tail()\<close>, the copy to it and \<open>advance(n)\<close>: \<open>n\<close> bytes are stored at the writable tail
  of the last buffer, then the buffer's length and \<open>size_\<close> grow by \<open>n\<close>. Storing more
  than the tailroom writes past the buffer.
\<close>

definition Cord_put :: "byte list \<Rightarrow> Cord \<Rightarrow> fault + Cord" where
  "Cord_put bs c =
     (if m_head c = [] then Inl NullDeref
      else
        let t = last (m_head c)
        in if tailroom t < length bs then Inl Overrun
           else Inr \<lparr>m_size = m_size c + length bs,
                     m_head = butlast (m_head c) @ [t\<lparr>data := data t @ bs\<rparr>]\<rparr>)"

text \<open>
  \<^verbatim>\<open>
  Cord& operator<<(const T &value) {
      makeRoomForWrite(value.size());
      ::memcpy(tail(), value.data(), value.size());
      advance(value.size());
      return *this;
  }
  \<close>
  The overloads for scalars, for strings and byte ranges, for C strings and \<open>write(ptr, len)\<close>
  all run these three steps on the bytes of their argument.
\<close>

definition Cord_write :: "byte list \<Rightarrow> Cord \<Rightarrow> fault + Cord" where
  "Cord_write bs c =
     (case makeRoomForWrite (length bs) c of
        Inl e \<Rightarrow> Inl e
      | Inr c' \<Rightarrow> Cord_put bs c')"

text \<open>The first \<open>n\<close> bytes of a word in memory, low byte first: what
  \<open>memcpy(dst, &w, n)\<close> copies on the little-endian host.\<close>

definition word_bytes :: "nat \<Rightarrow> 'a::len word \<Rightarrow> byte list" where
  "word_bytes n w = map (\<lambda>i. ucast (drop_bit (8 * i) w)) [0..<n]"

text \<open>The fixed-width values a Cord accepts; a floating-point value is its bit pattern.\<close>

datatype scalar =
    SBool bool
  | SInt8 "8 word"
  | SInt16 "16 word"
  | SInt32 "32 word"
  | SInt64 "64 word"
  | SFloat "32 word"
  | SDouble "64 word"

fun scalar_bytes :: "scalar \<Rightarrow> byte list" where
  "scalar_bytes (SBool b) = [if b then 1 else 0]"
| "scalar_bytes (SInt8 w) = word_bytes 1 w"
| "scalar_bytes (SInt16 w) = word_bytes 2 w"
| "scalar_bytes (SInt32 w) = word_bytes 4 w"
| "scalar_bytes (SInt64 w) = word_bytes 8 w"
| "scalar_bytes (SFloat w) = word_bytes 4 w"
| "scalar_bytes (SDouble w) = word_bytes 8 w"

definition string_bytes :: "string \<Rightarrow> byte list" where
  "string_bytes s = map (\<lambda>ch. word_of_nat (of_char ch)) s"

datatype piece = Raw "byte list" | Str string | Scalar scalar

fun piece_bytes :: "piece \<Rightarrow> byte list" where
  "piece_bytes (Raw bs) = bs"
| "piece_bytes (Str s) = string_bytes s"
| "piece_bytes (Scalar v) = scalar_bytes v"

definition Cord_append :: "piece \<Rightarrow> Cord \<Rightarrow> fault + Cord" where
  "Cord_append p c = Cord_write (piece_bytes p) c"

fun Cord_appends :: "piece list \<Rightarrow> Cord \<Rightarrow> fault + Cord" where
  "Cord_appends [] c = Inr c"
| "Cord_appends (p # ps) c =
     (case Cord_append p c of Inl e \<Rightarrow> Inl e | Inr c' \<Rightarrow> Cord_appends ps c')"

text \<open>
  \<^verbatim>\<open>
  bool Cord::apply(Visitor visitor) const {
      if (this->empty()) {
          return true;
      }
      auto iter = head_->begin();
      auto end = head_->end();
      while (iter != end) {
          auto *buf = reinterpret_cast<const char*>(iter->data());
          auto size = iter->size();
          if (!visitor(buf, size)) {
              return false;
          }
          ++iter;
      }
      return true;
  }
  \<close>
  The visitor is a function from a view and its own state to its verdict and new state.
\<close>

fun apply_chain :: "(byte list \<Rightarrow> 's \<Rightarrow> bool \<times> 's) \<Rightarrow> IOBuf list \<Rightarrow> 's \<Rightarrow> bool \<times> 's" where
  "apply_chain visitor [] s = (True, s)"
| "apply_chain visitor (b # bs) s =
     (case visitor (data b) s of
        (ok, s') \<Rightarrow> if \<not> ok then (False, s') else apply_chain visitor bs s')"

definition Cord_apply :: "(byte list \<Rightarrow> 's \<Rightarrow> bool \<times> 's) \<Rightarrow> Cord \<Rightarrow> 's \<Rightarrow> bool \<times> 's" where
  "Cord_apply visitor c s = (if Cord_empty c then (True, s) else apply_chain visitor (m_head c) s)"

text \<open>The views a visitor is handed, in the order of the calls.\<close>

definition Cord_views :: "Cord \<Rightarrow> byte list list" where
  "Cord_views c = snd (Cord_apply (\<lambda>view acc. (True, acc @ [view])) c [])"

text \<open>
  \<^verbatim>\<open>
  size_t Cord::appendTo(std::string& str) const {
      if (empty()) {
          return 0;
      }
      auto size = this->size();
      str.reserve(str.size() + size);
      this->apply([&str] (auto *buf, auto len) {
          str.append(buf, len);
          return true;
      });
      return size;
  }
  \<close>
\<close>

definition appendTo :: "Cord \<Rightarrow> byte list \<Rightarrow> nat \<times> byte list" where
  "appendTo c str =
     (if Cord_empty c then (0, str)
      else (Cord_size c, snd (Cord_apply (\<lambda>buf s. (True, s @ buf)) c str)))"

definition Cord_str :: "Cord \<Rightarrow> byte list" where
  "Cord_str c = snd (appendTo c [])"

text \<open>\<open>clone()\<close> and \<open>move()\<close>: the chain itself; \<open>clone\<close> dereferences the head.\<close>

definition Cord_clone :: "Cord \<Rightarrow> fault + IOBuf list" where
  "Cord_clone c = (if m_head c = [] then Inl NullDeref else Inr (m_head c))"

definition Cord_move :: "Cord \<Rightarrow> IOBuf list \<times> Cord" where
  "Cord_move c = (m_head c, c\<lparr>m_head := []\<rparr>)"

text \<open>
  \<^verbatim>\<open>
  void prependHeader(std::unique_ptr<folly::IOBuf> header) {
      auto size = header->computeChainDataLength();
      if (head_ == nullptr) {
          head_ = std::move(header);
          size_ = size;
          return;
      }
      header->prependChain(std::move(head_));
      head_ = std::move(header);
      size_ += size;
  }
  \<close>
\<close>

definition prependHeader :: "IOBuf list \<Rightarrow> Cord \<Rightarrow> fault + Cord" where
  "prependHeader header c =
     (if header = [] then Inl NullDeref
      else
        let sz = computeChainDataLength header
        in if m_head c = [] then Inr (c\<lparr>m_head := header, m_size := sz\<rparr>)
           else Inr (c\<lparr>m_head := header @ m_head c, m_size := m_size c + sz\<rparr>))"

text \<open>
  \<^verbatim>\<open>
  Cord& Cord::operator<<(const Cord& rhs) {
      auto rhsSize = rhs.size();
      if (rhsSize == 0UL) {
          return *this;
      }
      auto newTail = folly::IOBuf::create(rhsSize);
      rhs.apply([dest = newTail.get()] (auto *buf, auto len) {
          ::memcpy(dest->writableTail(), buf, len);
          dest->append(len);
          return true;
      });
      head_->prependChain(std::move(newTail));
      size_ += rhsSize;
      return *this;
  }
  \<close>
  The visitor's state is the new buffer, or the fault of a copy that does not fit in it.
\<close>

definition copy_into :: "byte list \<Rightarrow> fault + IOBuf \<Rightarrow> bool \<times> (fault + IOBuf)" where
  "copy_into buf dest =
     (case dest of
        Inl e \<Rightarrow> (True, Inl e)
      | Inr d \<Rightarrow>
          if tailroom d < length buf then (True, Inl Overrun)
          else (True, Inr (d\<lparr>data := data d @ buf\<rparr>)))"

definition Cord_append_cord :: "Cord \<Rightarrow> Cord \<Rightarrow> fault + Cord" where
  "Cord_append_cord rhs c =
     (let rhsSize = Cord_size rhs
      in if rhsSize = 0 then Inr c
         else
           case snd (Cord_apply copy_into rhs (Inr (IOBuf_create rhsSize))) of
             Inl e \<Rightarrow> Inl e
           | Inr newTail \<Rightarrow>
               if m_head c = [] then Inl NullDeref
               else Inr (c\<lparr>m_head := m_head c @ [newTail], m_size := m_size c + rhsSize\<rparr>))"

section \<open>Content and invariants of a Cord\<close>

text \<open>The bytes of a chain: the data of its buffers, in chain order.\<close>

definition chain_bytes :: "IOBuf list \<Rightarrow> byte list" where
  "chain_bytes chain = concat (map data chain)"

text \<open>A buffer's headroom and data lie inside its storage.\<close>

definition IOBuf_ok :: "IOBuf \<Rightarrow> bool" where
  "IOBuf_ok b = (headroom b + length (data b) \<le> capacity b)"

text \<open>
  The invariant \<open>Cord::size()\<close> asserts: \<open>size_\<close> is the data length of the chain (and 0
  for a null head); every buffer of the chain is well formed.
\<close>

definition Cord_ok :: "Cord \<Rightarrow> bool" where
  "Cord_ok c = (m_size c = computeChainDataLength (m_head c) \<and> list_all IOBuf_ok (m_head c))"

text \<open>
  The write tail of a Cord that has only been appended to was allocated by the Cord: it
  has no headroom, and its capacity is far from the end of the \<open>size_t\<close> range.
\<close>

definition tail_bounded :: "Cord \<Rightarrow> bool" where
  "tail_bounded c =
     (m_head c = [] \<or> headroom (last (m_head c)) = 0 \<and> capacity (last (m_head c)) < 2 ^ 63)"

section \<open>RowSetWriter\<close>

text \<open>
  Modelled from the spec: \<open>folly::encodeVarint\<close>, the library helper that
  \<open>RowSetWriter::writeRowLength\<close> calls, is not among the sources. The spec describes it
  as the standard variable-length unsigned integer encoding: 7 payload bits per byte, low
  group first, the continuation bit (bit 7) set on all bytes but the last.
\<close>

function encodeVarint :: "uint64 \<Rightarrow> byte list" where
  "encodeVarint val =
     (if 128 \<le> val then (0x80 OR ucast (val AND 0x7f)) # encodeVarint (drop_bit 7 val)
      else [ucast val])"
  by pat_completeness auto
termination
proof (relation "measure unat")
  show "wf (measure unat)" by simp
next
  fix val :: uint64
  assume "128 \<le> val"
  then have "128 \<le> unat val" by (simp add: word_le_nat_alt)
  then have "unat val div 128 < unat val" by simp
  moreover have "unat (drop_bit 7 val) = unat val div 128"
    by (simp add: drop_bit_eq_div unat_div)
  ultimately show "(drop_bit 7 val, val) \<in> measure unat"
    by (simp only: in_measure)
qed

declare encodeVarint.simps [simp del]

text \<open>The number a sequence of 7-bit groups stands for, low group first.\<close>

fun varint_value :: "byte list \<Rightarrow> nat" where
  "varint_value [] = 0"
| "varint_value (b # bs) = unat (b AND 0x7f) + 128 * varint_value bs"

text \<open>
  The members \<open>data_\<close> (the inline buffer, a \<open>std::string\<close>) and \<open>head_\<close> (the chain of
  rows handed over as buffers) are written \<open>rsw_data\<close> and \<open>rsw_head\<close>. The constructor
  reserves space in \<open>data_\<close> and leaves both empty.
\<close>

record RowSetWriter =
  rsw_data :: "byte list"
  rsw_head :: "IOBuf list"

definition RowSetWriter_new :: RowSetWriter where
  "RowSetWriter_new = \<lparr>rsw_data = [], rsw_head = []\<rparr>"

text \<open>
  \<^verbatim>\<open>
  void RowSetWriter::writeRowLength(int64_t len) {
      uint8_t buf[10];
      size_t lenBytes = folly::encodeVarint(len, buf);
      DCHECK_GT(lenBytes, 0UL);
      data_.append(reinterpret_cast<char*>(buf), lenBytes);
  }
  \<close>
\<close>

definition writeRowLength :: "uint64 \<Rightarrow> RowSetWriter \<Rightarrow> RowSetWriter" where
  "writeRowLength len w = w\<lparr>rsw_data := rsw_data w @ encodeVarint len\<rparr>"

text \<open>
  \<^verbatim>\<open>
  void RowSetWriter::addRow(const std::string& data) {
      writeRowLength(data.size());
      data_.append(data);
  }
  void RowSetWriter::addAll(const std::string& data) {
      data_.append(data);
  }
  \<close>
\<close>

definition addRow :: "byte list \<Rightarrow> RowSetWriter \<Rightarrow> RowSetWriter" where
  "addRow row w =
     (let w' = writeRowLength (word_of_nat (length row)) w
      in w'\<lparr>rsw_data := rsw_data w' @ row\<rparr>)"

definition addAll :: "byte list \<Rightarrow> RowSetWriter \<Rightarrow> RowSetWriter" where
  "addAll rows w = w\<lparr>rsw_data := rsw_data w @ rows\<rparr>"

text \<open>A sequence of \<open>addRow\<close> calls, in call order.\<close>

fun addRows :: "byte list list \<Rightarrow> RowSetWriter \<Rightarrow> RowSetWriter" where
  "addRows [] w = w"
| "addRows (row # rows) w = addRows rows (addRow row w)"

section \<open>The schema and the host\<close>

text \<open>
  Modelled from the spec: the schema provider (\<open>SchemaProviderIf\<close>, its \<open>SchemaWriter\<close> and
  the enumeration \<open>cpp2::SupportedType\<close>) is not among the sources. The spec gives its
  interface: a field count, the declared type of a field by index, a version (unsigned, 0
  for an unversioned schema) and, for the schema-defining mode, a builder that accepts
  (name, type) declarations; an index outside the declared range is a fatal contract
  violation. The type names are those \<open>RowWriter.cpp\<close> mentions; \<open>UNKNOWN\<close> stands for every
  type of the enumeration that the writer has no encoding for, and \<open>INT_ty\<close> is
  \<open>SupportedType::INT\<close>.
\<close>

datatype SupportedType = UNKNOWN | BOOL | INT_ty | VID | FLOAT | DOUBLE | STRING | TIMESTAMP

record Schema =
  schemaVersion :: uint64
  schemaFields :: "(string option \<times> SupportedType) list"

definition getVersion :: "Schema \<Rightarrow> uint64" where
  "getVersion s = schemaVersion s"

definition getNumFields :: "Schema \<Rightarrow> nat" where
  "getNumFields s = length (schemaFields s)"

definition getFieldType :: "Schema \<Rightarrow> int \<Rightarrow> fault + SupportedType" where
  "getFieldType s i =
     (if 0 \<le> i \<and> i < int (length (schemaFields s))
      then Inr (snd (schemaFields s ! nat i)) else Inl Fatal)"

definition appendCol :: "string option \<Rightarrow> SupportedType \<Rightarrow> Schema \<Rightarrow> Schema" where
  "appendCol name ty s = s\<lparr>schemaFields := schemaFields s @ [(name, ty)]\<rparr>"

text \<open>
  Modelled from the spec: \<open>writeInt\<close>, the helper of RowWriter that writes an integer (a
  string's length, an integer default), is not among the sources, and the spec leaves its
  byte layout open. The bytes it appends for a value are a parameter of the model. The
  conversions between \<open>float\<close> and \<open>double\<close> are the host's; they are parameters as well,
  acting on bit patterns.
\<close>

record Host =
  intBytes :: "int \<Rightarrow> byte list"
  floatToDouble :: "32 word \<Rightarrow> 64 word"
  doubleToFloat :: "64 word \<Rightarrow> 32 word"

section \<open>RowWriter\<close>

text \<open>A message of \<open>LOG(ERROR)\<close>: the name of the value type that did not fit.\<close>

datatype diagnostic = Incompatible string

text \<open>
  The members \<open>schema_\<close>, \<open>schemaWriter_\<close> (here: whether the writer owns a SchemaWriter,
  which then is \<open>schema_\<close>), \<open>cord_\<close>, \<open>colNum_\<close>, \<open>blockOffsets_\<close>, \<open>encoded_\<close>, \<open>colName_\<close> and
  \<open>colType_\<close> are written with the prefix \<open>rw_\<close>; \<open>rw_log\<close> collects the diagnostics.
  \<open>colNum_\<close> is a signed integer: \<open>operator<<(Skip&&)\<close> assigns it an \<open>int32_t\<close> and adds it
  to an \<open>int64_t\<close>.
\<close>

record RowWriter =
  rw_schema :: Schema
  rw_schemaWriter :: bool
  rw_cord :: Cord
  rw_colNum :: int
  rw_blockOffsets :: "nat list"
  rw_encoded :: bool
  rw_colName :: "string option"
  rw_colType :: "SupportedType option"
  rw_log :: "diagnostic list"

text \<open>
  \<^verbatim>\<open>
  RowWriter::RowWriter(std::shared_ptr<const SchemaProviderIf> schema)
          : schema_(std::move(schema)) {
      if (!schema_) {
          // Need to create a new schema
          schemaWriter_.reset(new SchemaWriter());
          schema_ = schemaWriter_;
      }
  }
  \<close>
  Modelled from the spec: the member initialisers are in the header, which is not among
  the sources; the writer starts at column 0 with an empty body, no block offsets and
  not finalized, and a new SchemaWriter has no fields and no version.
\<close>

definition RowWriter_new :: "Schema option \<Rightarrow> RowWriter" where
  "RowWriter_new schema =
     \<lparr>rw_schema = (case schema of None \<Rightarrow> \<lparr>schemaVersion = 0, schemaFields = []\<rparr> | Some s \<Rightarrow> s),
      rw_schemaWriter = (schema = None),
      rw_cord = Cord_new,
      rw_colNum = 0,
      rw_blockOffsets = [],
      rw_encoded = False,
      rw_colName = None,
      rw_colType = None,
      rw_log = []\<rparr>"

text \<open>
  \<^verbatim>\<open>
  int64_t RowWriter::size() const noexcept {
      auto offsetBytes = calcOccupiedBytes(cord_.size());
      auto verBytes = 0L;
      if (schema_->getVersion() > 0) {
          verBytes = calcOccupiedBytes(schema_->getVersion());
      }
      return cord_.size()  // data length
             + offsetBytes * blockOffsets_.size()  // block offsets length
             + verBytes  // version number length
             + 1;  // Header
  }
  \<close>
\<close>

definition RowWriter_size :: "RowWriter \<Rightarrow> nat" where
  "RowWriter_size w =
     (let offsetBytes = calcOccupiedBytes (word_of_nat (Cord_size (rw_cord w)));
          verBytes = (if 0 < getVersion (rw_schema w)
                      then calcOccupiedBytes (getVersion (rw_schema w)) else 0)
      in Cord_size (rw_cord w) + offsetBytes * length (rw_blockOffsets w) + verBytes + 1)"

text \<open>Sequencing of steps that may fault.\<close>

definition and_then :: "fault + 'a \<Rightarrow> ('a \<Rightarrow> fault + 'b) \<Rightarrow> fault + 'b" where
  "and_then m f = (case m of Inl e \<Rightarrow> Inl e | Inr x \<Rightarrow> f x)"

text \<open>\<open>cord_ << bytes\<close> and \<open>LOG(ERROR) << "Incompatible value type ..."\<close>.\<close>

definition cord_out :: "byte list \<Rightarrow> RowWriter \<Rightarrow> fault + RowWriter" where
  "cord_out bs w = and_then (Cord_write bs (rw_cord w)) (\<lambda>c. Inr (w\<lparr>rw_cord := c\<rparr>))"

definition log_error :: "string \<Rightarrow> RowWriter \<Rightarrow> RowWriter" where
  "log_error ty w = w\<lparr>rw_log := rw_log w @ [Incompatible ty]\<rparr>"

definition writeInt :: "Host \<Rightarrow> int \<Rightarrow> RowWriter \<Rightarrow> fault + RowWriter" where
  "writeInt h v w = cord_out (intBytes h v) w"

text \<open>
  Modelled from the spec: the macro \<open>RW_GET_COLUMN_TYPE(STYPE)\<close>, defined in the header,
  is not among the sources. The spec: the write is rejected (fatal) if the column index
  is not below the field count in fixed-schema mode; otherwise the declared type of the
  column is looked up, or, in schema-defining mode, the pending declared type of the new
  field is registered. \<open>STYPE\<close>, the natural type of the value, is the type of a new field
  for which no type token is pending.
\<close>

definition RW_GET_COLUMN_TYPE ::
  "SupportedType \<Rightarrow> RowWriter \<Rightarrow> fault + (SupportedType \<times> RowWriter)" where
  "RW_GET_COLUMN_TYPE stype w =
     (if int (getNumFields (rw_schema w)) \<le> rw_colNum w then
        if \<not> rw_schemaWriter w then Inl Fatal
        else (case rw_colType w of
                None \<Rightarrow> Inr (stype, w\<lparr>rw_colType := Some stype\<rparr>)
              | Some ty \<Rightarrow> Inr (ty, w))
      else and_then (getFieldType (rw_schema w) (rw_colNum w)) (\<lambda>ty. Inr (ty, w)))"

text \<open>
  Modelled from the spec: the macro \<open>RW_CLEAN_UP_WRITE()\<close>, defined in the header, is not
  among the sources. The spec: the column index advances; after completing field index
  \<open>i\<close> (0-based), if \<open>i \<noteq> 0\<close> and \<open>i mod 16 = 0\<close>, the current body size is appended to the
  block offsets; in schema-defining mode the write finalizes the declaration of the new
  field from the pending tokens, which it consumes.
\<close>

definition RW_CLEAN_UP_WRITE :: "RowWriter \<Rightarrow> RowWriter" where
  "RW_CLEAN_UP_WRITE w =
     (let i = rw_colNum w;
          w1 = w\<lparr>rw_colNum := i + 1\<rparr>;
          w2 = (if i \<noteq> 0 \<and> i mod 16 = 0
                then w1\<lparr>rw_blockOffsets := rw_blockOffsets w1 @ [Cord_size (rw_cord w1)]\<rparr>
                else w1);
          w3 = (if rw_schemaWriter w2 \<and> int (getNumFields (rw_schema w2)) \<le> i
                then (case rw_colType w2 of
                        None \<Rightarrow> w2
                      | Some ty \<Rightarrow> w2\<lparr>rw_schema := appendCol (rw_colName w2) ty (rw_schema w2)\<rparr>)
                else w2)
      in w3\<lparr>rw_colName := None, rw_colType := None\<rparr>)"

text \<open>
  \<^verbatim>\<open>
  RowWriter& RowWriter::operator<<(bool v) noexcept {
      RW_GET_COLUMN_TYPE(BOOL)
      switch (type->get_type()) {
          case SupportedType::BOOL:
              cord_ << v;
              break;
          default:
              LOG(ERROR) << "Incompatible value type \"bool\"";
              // Output a default value
              cord_ << false;
              break;
      }
      RW_CLEAN_UP_WRITE()
      return *this;
  }
  \<close>
\<close>

definition write_bool :: "Host \<Rightarrow> bool \<Rightarrow> RowWriter \<Rightarrow> fault + RowWriter" where
  "write_bool h v w =
     and_then (RW_GET_COLUMN_TYPE BOOL w) (\<lambda>(ty, w1).
       and_then
         (case ty of
            BOOL \<Rightarrow> cord_out (scalar_bytes (SBool v)) w1
          | _ \<Rightarrow> cord_out (scalar_bytes (SBool False)) (log_error ''bool'' w1))
         (\<lambda>w2. Inr (RW_CLEAN_UP_WRITE w2)))"

text \<open>
  \<^verbatim>\<open>
  RowWriter& RowWriter::operator<<(float v) noexcept {
      RW_GET_COLUMN_TYPE(FLOAT)
      switch (type->get_type()) {
          case SupportedType::FLOAT:
              cord_ << v;
              break;
          case SupportedType::DOUBLE:
              cord_ << static_cast<double>(v);
              break;
          default:
              LOG(ERROR) << "Incompatible value type \"float\"";
              cord_ << static_cast<float>(0.0);
              break;
      }
      RW_CLEAN_UP_WRITE()
      return *this;
  }
  \<close>
  The bit pattern of \<open>0.0\<close> is 0, as a \<open>float\<close> and as a \<open>double\<close>.
\<close>

definition write_float :: "Host \<Rightarrow> 32 word \<Rightarrow> RowWriter \<Rightarrow> fault + RowWriter" where
  "write_float h v w =
     and_then (RW_GET_COLUMN_TYPE FLOAT w) (\<lambda>(ty, w1).
       and_then
         (case ty of
            FLOAT \<Rightarrow> cord_out (scalar_bytes (SFloat v)) w1
          | DOUBLE \<Rightarrow> cord_out (scalar_bytes (SDouble (floatToDouble h v))) w1
          | _ \<Rightarrow> cord_out (scalar_bytes (SFloat 0)) (log_error ''float'' w1))
         (\<lambda>w2. Inr (RW_CLEAN_UP_WRITE w2)))"

text \<open>
  \<^verbatim>\<open>
  RowWriter& RowWriter::operator<<(double v) noexcept {
      RW_GET_COLUMN_TYPE(DOUBLE)
      switch (type->get_type()) {
          case SupportedType::FLOAT:
              cord_ << static_cast<float>(v);
              break;
          case SupportedType::DOUBLE:
              cord_ << v;
              break;
          default:
              LOG(ERROR) << "Incompatible value type \"double\"";
              cord_ << static_cast<double>(0.0);
              break;
      }
      RW_CLEAN_UP_WRITE()
      return *this;
  }
  \<close>
\<close>

definition write_double :: "Host \<Rightarrow> 64 word \<Rightarrow> RowWriter \<Rightarrow> fault + RowWriter" where
  "write_double h v w =
     and_then (RW_GET_COLUMN_TYPE DOUBLE w) (\<lambda>(ty, w1).
       and_then
         (case ty of
            FLOAT \<Rightarrow> cord_out (scalar_bytes (SFloat (doubleToFloat h v))) w1
          | DOUBLE \<Rightarrow> cord_out (scalar_bytes (SDouble v)) w1
          | _ \<Rightarrow> cord_out (scalar_bytes (SDouble 0)) (log_error ''double'' w1))
         (\<lambda>w2. Inr (RW_CLEAN_UP_WRITE w2)))"

text \<open>
  \<^verbatim>\<open>
  RowWriter& RowWriter::operator<<(folly::StringPiece v) noexcept {
      RW_GET_COLUMN_TYPE(STRING)
      switch (type->get_type()) {
          case SupportedType::STRING: {
              writeInt(v.size());
              cord_ << v;
              break;
          }
          default: {
              LOG(ERROR) << "Incompatible value type \"string\"";
              writeInt(0);
              break;
          }
      }
      RW_CLEAN_UP_WRITE()
      return *this;
  }
  \<close>
  The overloads for \<open>std::string\<close> and \<open>const char*\<close> forward to this one.
\<close>

definition write_string :: "Host \<Rightarrow> byte list \<Rightarrow> RowWriter \<Rightarrow> fault + RowWriter" where
  "write_string h v w =
     and_then (RW_GET_COLUMN_TYPE STRING w) (\<lambda>(ty, w1).
       and_then
         (case ty of
            STRING \<Rightarrow> and_then (writeInt h (int (length v)) w1) (cord_out v)
          | _ \<Rightarrow> writeInt h 0 (log_error ''string'' w1))
         (\<lambda>w2. Inr (RW_CLEAN_UP_WRITE w2)))"

text \<open>
  The control stream. \<open>DCHECK\<close> stops the program when its condition fails.
  \<^verbatim>\<open>
  RowWriter& RowWriter::operator<<(ColName&& colName) noexcept {
      DCHECK(!!schemaWriter_) << "ColName can only be used when a schema is missing";
      colName_.reset(new ColName(std::move(colName)));
      return *this;
  }
  RowWriter& RowWriter::operator<<(ColType&& colType) noexcept {
      DCHECK(!!schemaWriter_) << "ColType can only be used when a schema is missing";
      colType_.reset(new ColType(std::move(colType)));
      return *this;
  }
  \<close>
\<close>

definition write_ColName :: "string \<Rightarrow> RowWriter \<Rightarrow> fault + RowWriter" where
  "write_ColName colName w =
     (if \<not> rw_schemaWriter w then Inl Fatal else Inr (w\<lparr>rw_colName := Some colName\<rparr>))"

definition write_ColType :: "SupportedType \<Rightarrow> RowWriter \<Rightarrow> fault + RowWriter" where
  "write_ColType colType w =
     (if \<not> rw_schemaWriter w then Inl Fatal else Inr (w\<lparr>rw_colType := Some colType\<rparr>))"

text \<open>
  \<^verbatim>\<open>
  RowWriter& RowWriter::operator<<(Skip&& skip) noexcept {
      DCHECK(!schemaWriter_) << "Skip can only be used when a schema is provided";
      if (skip.toSkip_ <= 0) {
          VLOG(2) << "Nothing to skip";
          return *this;
      }
      int32_t skipTo = std::min(colNum_ + skip.toSkip_,
                                static_cast<int64_t>(schema_->getNumFields()));
      for (int i = colNum_; i < skipTo; i++) {
          switch (schema_->getFieldType(i).get_type()) {
              case SupportedType::BOOL: {
                  cord_ << false;
                  break;
              }
              case SupportedType::INT:
              case SupportedType::TIMESTAMP: {
                  writeInt(0);
                  break;
              }
              case SupportedType::FLOAT: {
                  cord_ << static_cast<float>(0.0);
                  break;
              }
              case SupportedType::DOUBLE: {
                  cord_ << static_cast<double>(0.0);
                  break;
              }
              case SupportedType::STRING: {
                  writeInt(0);
                  break;
              }
              case SupportedType::VID: {
                  cord_ << static_cast<uint64_t>(0);
                  break;
              }
              default: {
                  LOG(FATAL) << "Support for this value type has not been implemented";
              }
          }
          // Update block offsets
          if (i != 0 && (i >> 4 << 4) == i) {
              // We need to record block offset for every 16 fields
              blockOffsets_.emplace_back(cord_.size());
          }
      }
      colNum_ = skipTo;
      return *this;
  }
  \<close>
  The body of the \<open>switch\<close>, the loop, and the operator. \<open>toSkip_\<close> is an \<open>int64_t\<close>
  (\<open>std::min\<close> takes both its arguments at the type of the cast), so the sum
  \<open>colNum_ + skip.toSkip_\<close> is formed in \<open>int64_t\<close>, where it wraps around when it passes
  \<open>2^63 - 1\<close> (the language leaves that overflow undefined; the model takes the
  two's-complement addition of the host); the minimum is then narrowed to the \<open>int32_t\<close> \<open>skipTo\<close>, and the loop
  variable is an \<open>int\<close> of 32 bits, which \<open>i++\<close> keeps below \<open>skipTo\<close>. The argument
  \<open>toSkip\<close> of \<open>write_Skip\<close> is the member \<open>toSkip_\<close>, a value of \<open>int64_t\<close>.
\<close>

fun skip_default :: "Host \<Rightarrow> SupportedType \<Rightarrow> RowWriter \<Rightarrow> fault + RowWriter" where
  "skip_default h BOOL w = cord_out (scalar_bytes (SBool False)) w"
| "skip_default h INT_ty w = writeInt h 0 w"
| "skip_default h TIMESTAMP w = writeInt h 0 w"
| "skip_default h FLOAT w = cord_out (scalar_bytes (SFloat 0)) w"
| "skip_default h DOUBLE w = cord_out (scalar_bytes (SDouble 0)) w"
| "skip_default h STRING w = writeInt h 0 w"
| "skip_default h VID w = cord_out (scalar_bytes (SInt64 0)) w"
| "skip_default h UNKNOWN w = Inl Fatal"

function skip_loop :: "Host \<Rightarrow> int \<Rightarrow> int \<Rightarrow> RowWriter \<Rightarrow> fault + RowWriter" where
  "skip_loop h i skipTo w =
     (if i < skipTo then
        and_then (getFieldType (rw_schema w) i) (\<lambda>ty.
          and_then (skip_default h ty w) (\<lambda>w1.
            skip_loop h (i + 1) skipTo
              (if i \<noteq> 0 \<and> push_bit 4 (drop_bit 4 i) = i
               then w1\<lparr>rw_blockOffsets := rw_blockOffsets w1 @ [Cord_size (rw_cord w1)]\<rparr>
               else w1)))
      else Inr w)"
  by pat_completeness auto
termination
  by (relation "measure (\<lambda>(h, i, skipTo, w). nat (skipTo - i))") auto

declare skip_loop.simps [simp del]

definition write_Skip :: "Host \<Rightarrow> int \<Rightarrow> RowWriter \<Rightarrow> fault + RowWriter" where
  "write_Skip h toSkip w =
     (if rw_schemaWriter w then Inl Fatal
      else if toSkip \<le> 0 then Inr w
      else
        let skipTo = int32_t (min (int64_t (rw_colNum w + toSkip))
                                  (int64_t (int (getNumFields (rw_schema w)))))
        in and_then (skip_loop h (int32_t (rw_colNum w)) skipTo w)
             (\<lambda>w'. Inr (w'\<lparr>rw_colNum := skipTo\<rparr>)))"

text \<open>
  \<^verbatim>\<open>
  std::unique_ptr<folly::IOBuf> RowWriter::encodeToIOBuf() {
      if (encoded_) {
          return cord_.clone();
      }
      if (!schemaWriter_) {
          operator<<(Skip(schema_->getNumFields() - colNum_));
      }
      constexpr auto maxRowLenBytes = 10UL;
      auto version = schema_->getVersion();
      auto offsetBytes = calcOccupiedBytes(cord_.size());
      auto verBytes = calcOccupiedBytes(version);
      auto headerBytes = offsetBytes * blockOffsets_.size() + verBytes + 1;
      char header = offsetBytes - 1;
      auto hbuffer = folly::IOBuf::create(headerBytes + maxRowLenBytes);
      hbuffer->advance(maxRowLenBytes);
      auto *tail = hbuffer->writableTail();
      if (version > 0) {
          header |= verBytes << 5;
          ::memcpy(tail, &header, 1);
          tail += 1;
          ::memcpy(tail, &version, verBytes);
          tail += verBytes;
      } else {
          ::memcpy(tail, &header, 1);
          tail += 1;
          headerBytes -= verBytes;
      }
      for (auto offset : blockOffsets_) {
          ::memcpy(tail, &offset, offsetBytes);
          tail += offsetBytes;
      }
      hbuffer->append(headerBytes);
      cord_.prependHeader(std::move(hbuffer));
      encoded_ = true;
      return cord_.clone();
  }
  \<close>
  \<open>header_written\<close> is what the copies store behind \<open>tail\<close>, and the value of
  \<open>headerBytes\<close> at the end. The buffer is created with \<open>headerBytes + 10\<close> bytes and its
  data starts after 10 bytes of headroom; \<open>append(headerBytes)\<close> makes the first
  \<open>headerBytes\<close> bytes behind the headroom its data (storage that was not written reads
  as zero). Copies that pass the end of the buffer are a fault.
\<close>

definition header_written :: "RowWriter \<Rightarrow> byte list \<times> nat \<times> nat" where
  "header_written w =
     (let version = getVersion (rw_schema w);
          offsetBytes = calcOccupiedBytes (word_of_nat (Cord_size (rw_cord w)));
          verBytes = calcOccupiedBytes version;
          headerBytes = offsetBytes * length (rw_blockOffsets w) + verBytes + 1;
          header = (word_of_nat (offsetBytes - 1) :: byte);
          offsets = concat (map (\<lambda>offset. word_bytes offsetBytes (word_of_nat offset :: uint64))
                            (rw_blockOffsets w))
      in if 0 < version
         then ((header OR word_of_nat (push_bit 5 verBytes)) # word_bytes verBytes version @ offsets,
               headerBytes, headerBytes)
         else (header # offsets, headerBytes, headerBytes - verBytes))"

text \<open>
  The call of \<open>Skip\<close> that pads the row, and the rest of the function after it. The
  constructor of \<open>Skip\<close> takes the difference as an \<open>int64_t\<close>.
\<close>

definition pad_remaining :: "Host \<Rightarrow> RowWriter \<Rightarrow> fault + RowWriter" where
  "pad_remaining h w =
     (if \<not> rw_schemaWriter w
      then write_Skip h (int64_t (int (getNumFields (rw_schema w)) - rw_colNum w)) w
      else Inr w)"

definition attach_header :: "RowWriter \<Rightarrow> fault + (IOBuf list \<times> RowWriter)" where
  "attach_header w =
     (case header_written w of (written, allocated, headerBytes) \<Rightarrow>
        if allocated < length written then Inl Overrun
        else
          let hbuffer = \<lparr>capacity = allocated + 10, headroom = 10,
                         data = take headerBytes
                                  (written @ replicate (allocated - length written) 0)\<rparr>
          in and_then (prependHeader [hbuffer] (rw_cord w)) (\<lambda>c.
               let w' = w\<lparr>rw_cord := c, rw_encoded := True\<rparr>
               in and_then (Cord_clone (rw_cord w')) (\<lambda>chain. Inr (chain, w'))))"

definition encodeToIOBuf :: "Host \<Rightarrow> RowWriter \<Rightarrow> fault + (IOBuf list \<times> RowWriter)" where
  "encodeToIOBuf h w =
     (if rw_encoded w then and_then (Cord_clone (rw_cord w)) (\<lambda>chain. Inr (chain, w))
      else and_then (pad_remaining h w) attach_header)"

text \<open>
  \<^verbatim>\<open>
  void RowWriter::encodeTo(std::string& encoded) noexcept {
      if (!encoded_) {
          encodeToIOBuf();
      }
      cord_.appendTo(encoded);
  }
  std::string RowWriter::encode() noexcept {
      std::string encoded;
      // Reserve enough space so resize will not happen
      encoded.reserve(sizeof(int64_t) * blockOffsets_.size() + cord_.size() + 11);
      encodeTo(encoded);
      return encoded;
  }
  \<close>
\<close>

definition encodeTo :: "Host \<Rightarrow> byte list \<Rightarrow> RowWriter \<Rightarrow> fault + (byte list \<times> RowWriter)" where
  "encodeTo h encoded w =
     and_then (if \<not> rw_encoded w then and_then (encodeToIOBuf h w) (\<lambda>(chain, w'). Inr w') else Inr w)
       (\<lambda>w'. Inr (snd (appendTo (rw_cord w') encoded), w'))"

definition encode :: "Host \<Rightarrow> RowWriter \<Rightarrow> fault + (byte list \<times> RowWriter)" where
  "encode h w = encodeTo h [] w"

text \<open>
  The values of the data stream and the operations of a writer; \<open>Skip n\<close> is the token
  \<open>Skip(n)\<close>, whose constructor stores \<open>n\<close> in the \<open>int64_t\<close> \<open>toSkip_\<close>.
\<close>

datatype val = VBool bool | VFloat "32 word" | VDouble "64 word" | VString "byte list"

fun write_val :: "Host \<Rightarrow> val \<Rightarrow> RowWriter \<Rightarrow> fault + RowWriter" where
  "write_val h (VBool v) w = write_bool h v w"
| "write_val h (VFloat v) w = write_float h v w"
| "write_val h (VDouble v) w = write_double h v w"
| "write_val h (VString v) w = write_string h v w"

datatype rw_op = Put val | Skip int | ColName string | ColType SupportedType

fun rw_apply :: "Host \<Rightarrow> rw_op \<Rightarrow> RowWriter \<Rightarrow> fault + RowWriter" where
  "rw_apply h (Put v) w = write_val h v w"
| "rw_apply h (Skip n) w = write_Skip h (int64_t n) w"
| "rw_apply h (ColName name) w = write_ColName name w"
| "rw_apply h (ColType ty) w = write_ColType ty w"

fun rw_run :: "Host \<Rightarrow> rw_op list \<Rightarrow> RowWriter \<Rightarrow> fault + RowWriter" where
  "rw_run h [] w = Inr w"
| "rw_run h (op # ops) w = and_then (rw_apply h op w) (rw_run h ops)"

section \<open>Invariants and auxiliary notions of RowWriter\<close>

text \<open>A row is fully written when the writer builds its own schema, or when every field of
  the given schema has been written or skipped.\<close>

definition fully_written :: "RowWriter \<Rightarrow> bool" where
  "fully_written w = (rw_schemaWriter w \<or> rw_colNum w = int (getNumFields (rw_schema w)))"

text \<open>
  A writer for a given schema whose column index lies inside the schema, the field count
  being one that the 32-bit \<open>skipTo\<close> and loop variable of \<open>Skip\<close> can hold.
\<close>

definition within_schema :: "RowWriter \<Rightarrow> bool" where
  "within_schema w =
     (\<not> rw_schemaWriter w \<and> 0 \<le> rw_colNum w
      \<and> rw_colNum w \<le> int (getNumFields (rw_schema w))
      \<and> getNumFields (rw_schema w) < 2 ^ 31)"

text \<open>
  The invariant of a writer that is not finalized: the body satisfies the invariant of
  \<open>Cord::size()\<close>, and the block offsets are ascending positions inside the body.
\<close>

definition RowWriter_ok :: "RowWriter \<Rightarrow> bool" where
  "RowWriter_ok w =
     (Cord_ok (rw_cord w) \<and> sorted (rw_blockOffsets w)
      \<and> list_all (\<lambda>offset. offset \<le> Cord_size (rw_cord w)) (rw_blockOffsets w))"

text \<open>\<open>w2\<close> arises from \<open>w\<close> by appending to the body and logging only.\<close>

definition body_grows :: "RowWriter \<Rightarrow> RowWriter \<Rightarrow> bool" where
  "body_grows w w2 =
     (rw_blockOffsets w2 = rw_blockOffsets w \<and> rw_colNum w2 = rw_colNum w
      \<and> rw_schema w2 = rw_schema w \<and> rw_schemaWriter w2 = rw_schemaWriter w
      \<and> rw_encoded w2 = rw_encoded w
      \<and> (Cord_ok (rw_cord w) \<longrightarrow>
            Cord_ok (rw_cord w2) \<and> m_size (rw_cord w) \<le> m_size (rw_cord w2)))"

text \<open>The widths that \<open>size()\<close> and \<open>encodeToIOBuf\<close> compute.\<close>

definition offsetWidth :: "RowWriter \<Rightarrow> nat" where
  "offsetWidth w = calcOccupiedBytes (word_of_nat (Cord_size (rw_cord w)))"

definition versionWidth :: "RowWriter \<Rightarrow> nat" where
  "versionWidth w =
     (if 0 < getVersion (rw_schema w) then calcOccupiedBytes (getVersion (rw_schema w)) else 0)"

text \<open>
  A row given field by field: \<open>Some v\<close> is a field written with the value \<open>v\<close>, \<open>None\<close> a
  field padded with its default by \<open>Skip(1)\<close>. \<open>body_size_after h s fs i\<close> is the size of the
  body once the fields 0 to \<open>i\<close> of \<open>fs\<close> are complete, on a new writer for the schema \<open>s\<close>.
\<close>

definition field_op :: "val option \<Rightarrow> rw_op" where
  "field_op f = (case f of Some v \<Rightarrow> Put v | None \<Rightarrow> Skip 1)"

definition body_size_after :: "Host \<Rightarrow> Schema \<Rightarrow> val option list \<Rightarrow> nat \<Rightarrow> nat" where
  "body_size_after h s fs i =
     (case rw_run h (map field_op (take (i + 1) fs)) (RowWriter_new (Some s)) of
        Inl e \<Rightarrow> 0
      | Inr w \<Rightarrow> Cord_size (rw_cord w))"

text \<open>
  A host for the examples: \<open>writeInt\<close> stores a varint, and the conversions are right at
  the values the examples use (0.0 and 1.0).
\<close>

definition example_host :: Host where
  "example_host =
     \<lparr>intBytes = (\<lambda>v. encodeVarint (word_of_int v)),
      floatToDouble = (\<lambda>f. if f = 0x3F800000 then 0x3FF0000000000000 else 0),
      doubleToFloat = (\<lambda>d. if d = 0x3FF0000000000000 then 0x3F800000 else 0)\<rparr>"





section \<open>Example rows\<close>

text \<open>
  The end-to-end scenario of the spec: an unversioned schema of 18 boolean fields, and the
  writer after \<open>true\<close> has been written to each of them.
\<close>

definition schema18 :: Schema where
  "schema18 = \<lparr>schemaVersion = 0, schemaFields = replicate 18 (None, BOOL)\<rparr>"

definition row18 :: RowWriter where
  "row18 =
     \<lparr>rw_schema = schema18,
      rw_schemaWriter = False,
      rw_cord = \<lparr>m_size = 18,
                 m_head = [\<lparr>capacity = 256, headroom = 0, data = replicate 18 1\<rparr>]\<rparr>,
      rw_colNum = 18, rw_blockOffsets = [17], rw_encoded = False,
      rw_colName = None, rw_colType = None, rw_log = []\<rparr>"

text \<open>An unversioned schema of 34 boolean fields: it has two block boundaries, at the
  field indices 16 and 32.\<close>

definition schema34 :: Schema where
  "schema34 = \<lparr>schemaVersion = 0, schemaFields = replicate 34 (None, BOOL)\<rparr>"

text \<open>The writer for a schema of one boolean field and version \<open>ver\<close>, after \<open>true\<close> has
  been written.\<close>

definition versioned_row :: "uint64 \<Rightarrow> RowWriter" where
  "versioned_row ver =
     \<lparr>rw_schema = \<lparr>schemaVersion = ver, schemaFields = [(None, BOOL)]\<rparr>,
      rw_schemaWriter = False,
      rw_cord = \<lparr>m_size = 1, m_head = [\<lparr>capacity = 256, headroom = 0, data = [1]\<rparr>]\<rparr>,
      rw_colNum = 1, rw_blockOffsets = [], rw_encoded = False,
      rw_colName = None, rw_colType = None, rw_log = []\<rparr>"

section \<open>Facts about calcOccupiedBytes\<close>

lemma bit_unat_word: "bit (unat (v::uint64)) n = bit v n"
  by (simp add: bit_unsigned_iff)

lemma bit_nat_ge: "bit (x::nat) n \<Longrightarrow> 2 ^ n \<le> x"
  by (rule ccontr) (simp add: bit_iff_odd)

lemma nbit_nat_lt: "\<not> bit (x::nat) n \<Longrightarrow> x < 2 ^ Suc n \<Longrightarrow> x < 2 ^ n"
proof (rule ccontr)
  assume a: "\<not> bit x n" "x < 2 ^ Suc n" "\<not> x < 2 ^ n"
  then have "x div 2 ^ n < 2" by (simp add: less_mult_imp_div_less)
  moreover have "x div 2 ^ n \<ge> 1" using a(3) by (simp add: div_greater_zero_iff Suc_le_eq)
  ultimately have "x div 2 ^ n = 1" by simp
  with a(1) show False by (simp add: bit_iff_odd)
qed

lemma clz_from_bounds:
  "unat v < 2 ^ n \<Longrightarrow> v \<noteq> 0 \<Longrightarrow>
     clz_from n v < n \<and> 2 ^ (n - clz_from n v - 1) \<le> unat v \<and> unat v < 2 ^ (n - clz_from n v)"
proof (induction n)
  case 0
  then show ?case by (simp add: unat_eq_0)
next
  case (Suc n)
  show ?case
  proof (cases "bit v n")
    case True
    then have "2 ^ n \<le> unat v"
      using bit_nat_ge[of "unat v" n] by (simp add: bit_unat_word)
    with Suc.prems True show ?thesis by simp
  next
    case False
    then have "unat v < 2 ^ n" using Suc.prems(1) nbit_nat_lt[of "unat v" n]
      by (simp add: bit_unat_word)
    from Suc.IH[OF this Suc.prems(2)] False show ?thesis
      by (auto simp: Suc_diff_le)
  qed
qed

lemma builtin_clzl_bounds:
  assumes "v \<noteq> 0"
  shows "builtin_clzl v < 64" 
    and "2 ^ (63 - builtin_clzl v) \<le> unat v" 
    and "unat v < 2 ^ (64 - builtin_clzl v)"
proof -
  have "unat v < 2 ^ 64" using unsigned_less[of v] by simp
  from clz_from_bounds[OF this assms] show "builtin_clzl v < 64" 
    and "2 ^ (63 - builtin_clzl v) \<le> unat v" 
    and "unat v < 2 ^ (64 - builtin_clzl v)"
    by (simp_all add: builtin_clzl_def)
qed

lemma calcOccupiedBytes_range: "1 \<le> calcOccupiedBytes v \<and> calcOccupiedBytes v \<le> 8"
  using builtin_clzl_bounds(1)[of v] by (auto simp: calcOccupiedBytes_def)

lemma calcOccupiedBytes_fits: "unat v < 256 ^ calcOccupiedBytes v"
proof (cases "v = 0")
  case True then show ?thesis by (simp add: calcOccupiedBytes_def)
next
  case False
  let ?c = "builtin_clzl v"
  have c: "?c < 64" using builtin_clzl_bounds(1)[OF False] .
  have "64 - ?c \<le> 8 * (8 - ?c div 8)" using c by arith
  then have "(2::nat) ^ (64 - ?c) \<le> 2 ^ (8 * (8 - ?c div 8))"
    by (rule power_increasing) simp
  also have "\<dots> = 256 ^ (8 - ?c div 8)" by (simp add: power_mult)
  finally show ?thesis using builtin_clzl_bounds(3)[OF False] False
    by (simp add: calcOccupiedBytes_def)
qed

lemma calcOccupiedBytes_least: 
  assumes "v \<noteq> 0" shows "256 ^ (calcOccupiedBytes v - 1) \<le> unat v"
proof -
  let ?c = "builtin_clzl v"
  have c: "?c < 64" using builtin_clzl_bounds(1)[OF assms] .
  have le: "8 * (8 - ?c div 8 - 1) \<le> 63 - ?c" using c by arith
  have "(256::nat) ^ (8 - ?c div 8 - 1) = 2 ^ (8 * (8 - ?c div 8 - 1))"
    by (simp add: power_mult)
  also have "\<dots> \<le> 2 ^ (63 - ?c)"
    using le by (rule power_increasing) simp
  also have "\<dots> \<le> unat v" using builtin_clzl_bounds(2)[OF assms] .
  finally show ?thesis using assms by (simp add: calcOccupiedBytes_def)
qed

lemma calcOccupiedBytes_floorlog: "v \<noteq> 0 \<Longrightarrow> calcOccupiedBytes v = floorlog 256 (unat v)"
proof -
  assume nz: "v \<noteq> 0"
  have "floorlog 256 (unat v) \<le> calcOccupiedBytes v"
    using calcOccupiedBytes_fits[of v] by (simp add: floorlog_le_iff)
  moreover have "calcOccupiedBytes v \<le> floorlog 256 (unat v)"
    using calcOccupiedBytes_least[OF nz] by (intro floorlog_geI) auto
  ultimately show ?thesis by simp
qed


lemma floorlog2_clzl:
  assumes "v \<noteq> 0" shows "floorlog 2 (unat v) = 64 - builtin_clzl v"
proof -
  let ?c = "builtin_clzl v"
  have c: "?c < 64" using builtin_clzl_bounds(1)[OF assms] .
  have "floorlog 2 (unat v) \<le> 64 - ?c"
    using builtin_clzl_bounds(3)[OF assms] by (simp add: floorlog_le_iff)
  moreover have "64 - ?c \<le> floorlog 2 (unat v)"
  proof (rule floorlog_geI)
    have "64 - ?c - 1 = 63 - ?c" by simp
    then show "2 ^ (64 - ?c - 1) \<le> unat v"
      using builtin_clzl_bounds(2)[OF assms] by simp
  qed simp
  ultimately show ?thesis by simp
qed

lemma calcOccupiedBytes_bitlength:
  assumes "v \<noteq> 0" shows "calcOccupiedBytes v = (floorlog 2 (unat v) + 7) div 8"
proof -
  have c: "builtin_clzl v < 64" using builtin_clzl_bounds(1)[OF assms] .
  then have "8 - builtin_clzl v div 8 = (64 - builtin_clzl v + 7) div 8" by arith
  then show ?thesis using assms by (simp add: calcOccupiedBytes_def floorlog2_clzl)
qed

lemma calcOccupiedBytes_Least:
  "calcOccupiedBytes v = (LEAST k. 1 \<le> k \<and> unat v < 256 ^ k)"
proof (rule Least_equality [symmetric])
  show "1 \<le> calcOccupiedBytes v \<and> unat v < 256 ^ calcOccupiedBytes v"
    using calcOccupiedBytes_range[of v] calcOccupiedBytes_fits[of v] by simp
next
  fix k assume k: "1 \<le> k \<and> unat v < 256 ^ k"
  show "calcOccupiedBytes v \<le> k"
  proof (cases "v = 0")
    case True then show ?thesis using k by (simp add: calcOccupiedBytes_def)
  next
    case False
    have "(256::nat) ^ (calcOccupiedBytes v - 1) \<le> unat v"
      using calcOccupiedBytes_least[OF False] .
    also have "unat v < 256 ^ k" using k by simp
    finally have "calcOccupiedBytes v - 1 < k" by (simp add: power_strict_increasing_iff)
    then show ?thesis by simp
  qed
qed

section \<open>Facts about Cord\<close>

lemma and_not_255: "(w::uint64) AND NOT 255 = push_bit 8 (drop_bit 8 w)"
proof -
  have m: "(255::uint64) = mask 8" by (simp add: mask_eq_exp_minus_1)
  show ?thesis unfolding m
    by (rule bit_word_eqI) (auto simp: bit_simps)
qed

lemma unat_and_not_255: "unat ((w::uint64) AND NOT 255) = unat w div 256 * 256"
proof -
  have "unat (push_bit 8 (drop_bit 8 w)) = take_bit 64 (push_bit 8 (drop_bit 8 (unat w)))"
    by (simp add: unsigned_push_bit_eq unat_drop_bit_eq)
  also have "\<dots> = take_bit 64 (unat w div 256 * 256)"
    by (simp add: push_bit_eq_mult drop_bit_eq_div)
  also have "\<dots> = unat w div 256 * 256"
  proof (rule take_bit_nat_eq_self)
    have "unat w div 256 * 256 \<le> unat w" by simp
    also have "unat w < 2 ^ 64" using unsigned_less[of w] by simp
    finally show "unat w div 256 * 256 < 2 ^ 64" .
  qed
  finally show ?thesis by (simp only: and_not_255)
qed

lemma unat_of_nat64: "unat (word_of_nat m :: uint64) = m mod 2 ^ 64"
  by (simp add: unat_of_nat)

lemma alignedSize_nat:
  assumes "n + 255 < 2 ^ 64"
  shows "alignedSize n = (n + 255) div 256 * 256"
proof -
  have e: "(word_of_nat n + kBufferAlignment - 1 :: uint64) = word_of_nat (n + 255)"
    by (simp add: kBufferAlignment_def)
  have u: "unat (word_of_nat (n + 255) :: uint64) = n + 255"
    using assms by (simp only: unat_of_nat64 mod_less)
  have k: "kBufferAlignment - 1 = (255 :: uint64)"
    by (simp add: kBufferAlignment_def)
  show ?thesis
    unfolding alignedSize_def e k by (simp only: unat_and_not_255 u)
qed

lemma alignedSize_bounds:
  assumes "n + 255 < 2 ^ 64"
  shows "n \<le> alignedSize n" "alignedSize n \<le> n + 255" "alignedSize n mod 256 = 0"
proof -
  have "(n + 255) div 256 * 256 + (n + 255) mod 256 = n + 255" by simp
  moreover have "(n + 255) mod 256 < 256" by simp
  ultimately have "n \<le> (n + 255) div 256 * 256" by linarith
  then show "n \<le> alignedSize n" by (simp only: alignedSize_nat[OF assms])
  show "alignedSize n \<le> n + 255" unfolding alignedSize_nat[OF assms] by simp
  show "alignedSize n mod 256 = 0" unfolding alignedSize_nat[OF assms] by simp
qed

lemma kMaxGrowthSize_value: "kMaxGrowthSize = 262144"
  by (simp add: kMaxGrowthSize_def)

lemma size_t_nat: "n < 2 ^ 64 \<Longrightarrow> size_t (int n) = n"
  by (simp add: size_t_def nat_mod_distrib flip: of_nat_power of_nat_mod)

lemma length_chain_bytes: "length (chain_bytes chain) = computeChainDataLength chain"
  by (simp add: chain_bytes_def computeChainDataLength_def length_concat comp_def)

lemma chain_bytes_append [simp]: "chain_bytes (xs @ ys) = chain_bytes xs @ chain_bytes ys"
  by (simp add: chain_bytes_def)

lemma computeChainDataLength_append [simp]:
  "computeChainDataLength (xs @ ys) = computeChainDataLength xs + computeChainDataLength ys"
  by (simp add: computeChainDataLength_def)

lemma computeChainDataLength_Cons [simp]:
  "computeChainDataLength (b # bs) = length (data b) + computeChainDataLength bs"
  by (simp add: computeChainDataLength_def)

lemma chain_bytes_Cons [simp]: "chain_bytes (b # bs) = data b @ chain_bytes bs"
  by (simp add: chain_bytes_def)

lemma chain_bytes_Nil [simp]: "chain_bytes [] = []"
  by (simp add: chain_bytes_def)

lemma computeChainDataLength_Nil [simp]: "computeChainDataLength [] = 0"
  by (simp add: computeChainDataLength_def)

lemma apply_chain_collect:
  "apply_chain (\<lambda>view acc. (True, acc @ [view])) chain acc = (True, acc @ map data chain)"
  by (induction chain arbitrary: acc) auto

lemma apply_chain_concat:
  "apply_chain (\<lambda>buf s. (True, s @ buf)) chain s = (True, s @ chain_bytes chain)"
  by (induction chain arbitrary: s) (auto simp: chain_bytes_def)

lemma Cord_views_ok:
  assumes "Cord_ok c" shows "concat (Cord_views c) = chain_bytes (m_head c)"
proof (cases "m_size c = 0")
  case True
  then have "length (chain_bytes (m_head c)) = 0"
    using assms by (simp add: Cord_ok_def length_chain_bytes)
  then show ?thesis using True
    by (simp add: Cord_views_def Cord_apply_def Cord_empty_def Cord_size_def)
next
  case False
  then show ?thesis
    by (simp add: Cord_views_def Cord_apply_def Cord_empty_def Cord_size_def
        apply_chain_collect chain_bytes_def)
qed

lemma Cord_str_ok:
  assumes "Cord_ok c" shows "Cord_str c = chain_bytes (m_head c)"
proof (cases "m_size c = 0")
  case True
  then have "length (chain_bytes (m_head c)) = 0"
    using assms by (simp add: Cord_ok_def length_chain_bytes)
  then show ?thesis using True
    by (simp add: Cord_str_def appendTo_def Cord_apply_def Cord_empty_def Cord_size_def)
next
  case False
  then show ?thesis
    by (simp add: Cord_str_def appendTo_def Cord_apply_def Cord_empty_def Cord_size_def
        apply_chain_concat)
qed

lemma makeRoomForWrite_room:
  assumes ok: "Cord_ok c" and tb: "tail_bounded c" and n: "n < 2 ^ 60"
  shows "\<exists>c'. makeRoomForWrite n c = Inr c' \<and> Cord_ok c' \<and> tail_bounded c' \<and> m_head c' \<noteq> []
           \<and> n \<le> tailroom (last (m_head c')) \<and> chain_bytes (m_head c') = chain_bytes (m_head c)
           \<and> m_size c' = m_size c"
proof (cases "m_head c = []")
  case True
  have a: "n + 255 < 2 ^ 64" using n by simp
  from alignedSize_bounds[OF a] n True ok show ?thesis
    by (simp add: makeRoomForWrite_def IOBuf_create_def tailroom_def Cord_ok_def tail_bounded_def
        IOBuf_ok_def)
next
  case False
  then obtain xs t where h: "m_head c = xs @ [t]"
    by (metis append_butlast_last_id)
  from tb h have hr: "headroom t = 0" and cb: "capacity t < 2 ^ 63"
    by (simp_all add: tail_bounded_def)
  from ok h have okt: "length (data t) \<le> capacity t" and okxs: "list_all IOBuf_ok xs"
    and sz: "m_size c = computeChainDataLength xs + length (data t)"
    using hr by (simp_all add: Cord_ok_def IOBuf_ok_def)
  have room: "tailroom t = capacity t - length (data t)"
    using hr by (simp add: tailroom_def)
  show ?thesis
  proof (cases "n \<le> tailroom t")
    case True
    then show ?thesis using ok tb h by (simp add: makeRoomForWrite_def)
  next
    case nofit: False
    show ?thesis
    proof (cases "length (data t) \<le> capacity t div 2")
      case True
      define need where "need = n - tailroom t"
      have need: "size_t (int n - int (tailroom t)) = need"
      proof -
        have "int n - int (tailroom t) = int need" using nofit by (simp add: need_def)
        moreover have "need < 2 ^ 64" using n by (simp add: need_def)
        ultimately show ?thesis by (simp add: size_t_nat)
      qed
      have capn: "capacity t < 2 * n" using nofit True room by linarith
      have a: "capacity t + need + 255 < 2 ^ 64" using cb n by (simp add: need_def)
      define A where "A = alignedSize (capacity t + need)"
      have A1: "capacity t + need \<le> A" and A2: "A \<le> capacity t + need + 255"
        using alignedSize_bounds[OF a] by (simp_all add: A_def)
      have need1: "1 \<le> need" using nofit by (simp add: need_def)
      have res: "IOBuf_reserve 0 A t = t\<lparr>capacity := length (data t) + A, headroom := 0\<rparr>"
        using A1 need1 room okt hr by (simp add: IOBuf_reserve_def)
      have mk: "makeRoomForWrite n c = Inr (c\<lparr>m_head := xs @ [t\<lparr>capacity := length (data t) + A, headroom := 0\<rparr>]\<rparr>)"
        using nofit True h need res
        by (simp add: makeRoomForWrite_def makeRoomForWriteSlow_def Let_def A_def)
      have fits: "n \<le> A" using A1 room okt nofit by (simp add: need_def)
      have bnd: "length (data t) + A < 2 ^ 63"
        using A2 capn True n by (simp add: need_def)
      show ?thesis
        using mk fits bnd okxs sz h
        by (simp add: Cord_ok_def tail_bounded_def tailroom_def IOBuf_ok_def)
    next
      case False
      define nc where "nc = (let newCapacity = size_t (int (capacity t) * 2);
                 newCapacity = (if newCapacity > kMaxGrowthSize then kMaxGrowthSize else newCapacity)
               in (if newCapacity > n then newCapacity else n))"
      have mk: "makeRoomForWrite n c = Inr (c\<lparr>m_head := (xs @ [t]) @ [IOBuf_create nc]\<rparr>)"
        using nofit False h
        by (simp add: makeRoomForWrite_def makeRoomForWriteSlow_def Let_def nc_def)
      have ncb: "n \<le> nc" "nc < 2 ^ 63"
        using n by (auto simp: nc_def Let_def kMaxGrowthSize_value)
      show ?thesis
        using mk ncb okxs sz ok h
        by (simp add: Cord_ok_def tail_bounded_def tailroom_def IOBuf_ok_def IOBuf_create_def)
    qed
  qed
qed


lemma Cord_put_fits:
  assumes ok: "Cord_ok c" and tb: "tail_bounded c" and ne: "m_head c \<noteq> []"
    and fit: "length bs \<le> tailroom (last (m_head c))"
  shows "\<exists>c'. Cord_put bs c = Inr c' \<and> Cord_ok c' \<and> tail_bounded c'
           \<and> chain_bytes (m_head c') = chain_bytes (m_head c) @ bs
           \<and> m_size c' = m_size c + length bs"
proof -
  from ne obtain xs t where h: "m_head c = xs @ [t]"
    by (metis append_butlast_last_id)
  from ok h have okt: "headroom t + length (data t) \<le> capacity t" and okxs: "list_all IOBuf_ok xs"
    and sz: "m_size c = computeChainDataLength xs + length (data t)"
    by (simp_all add: Cord_ok_def IOBuf_ok_def)
  from fit h have f: "length bs \<le> capacity t - headroom t - length (data t)"
    by (simp add: tailroom_def)
  have "Cord_put bs c = Inr \<lparr>m_size = m_size c + length bs,
                     m_head = xs @ [t\<lparr>data := data t @ bs\<rparr>]\<rparr>"
    using h fit by (simp add: Cord_put_def Let_def)
  then show ?thesis
    using okt okxs sz f tb h
    by (simp add: Cord_ok_def tail_bounded_def IOBuf_ok_def)
qed

lemma Cord_write_ok:
  assumes ok: "Cord_ok c" and tb: "tail_bounded c" and n: "length bs < 2 ^ 60"
  shows "\<exists>c'. Cord_write bs c = Inr c' \<and> Cord_ok c' \<and> tail_bounded c'
           \<and> chain_bytes (m_head c') = chain_bytes (m_head c) @ bs
           \<and> m_size c' = m_size c + length bs"
proof -
  from makeRoomForWrite_room[OF ok tb n] obtain c1 where
    c1: "makeRoomForWrite (length bs) c = Inr c1" "Cord_ok c1" "tail_bounded c1" "m_head c1 \<noteq> []"
       "length bs \<le> tailroom (last (m_head c1))" "chain_bytes (m_head c1) = chain_bytes (m_head c)"
       "m_size c1 = m_size c"
    by blast
  from Cord_put_fits[OF c1(2) c1(3) c1(4) c1(5)] c1(1) c1(6) c1(7)
  show ?thesis by (simp add: Cord_write_def)
qed

lemma Cord_appends_ok:
  assumes "Cord_ok c" and "tail_bounded c" and "list_all (\<lambda>p. length (piece_bytes p) < 2 ^ 60) ps"
  shows "\<exists>c'. Cord_appends ps c = Inr c' \<and> Cord_ok c' \<and> tail_bounded c'
           \<and> chain_bytes (m_head c') = chain_bytes (m_head c) @ concat (map piece_bytes ps)
           \<and> m_size c' = m_size c + length (concat (map piece_bytes ps))"
  using assms
proof (induction ps arbitrary: c)
  case Nil
  then show ?case by simp
next
  case (Cons p ps)
  from Cons.prems have p: "length (piece_bytes p) < 2 ^ 60"
    and ps: "list_all (\<lambda>p. length (piece_bytes p) < 2 ^ 60) ps" by simp_all
  from Cord_write_ok[OF Cons.prems(1) Cons.prems(2) p] obtain c1 where
    c1: "Cord_write (piece_bytes p) c = Inr c1" "Cord_ok c1" "tail_bounded c1"
        "chain_bytes (m_head c1) = chain_bytes (m_head c) @ piece_bytes p"
        "m_size c1 = m_size c + length (piece_bytes p)"
    by blast
  from Cons.IH[OF c1(2) c1(3) ps] c1(1) c1(4) c1(5) show ?case
    by (auto simp: Cord_append_def)
qed

lemma Cord_new_ok: "Cord_ok Cord_new" "tail_bounded Cord_new"
  by (simp_all add: Cord_ok_def Cord_new_def tail_bounded_def)

lemma Cord_reserved_ok:
  assumes "r < 2 ^ 60"
  shows "\<exists>c. Cord_reserved r = Inr c \<and> Cord_ok c \<and> tail_bounded c \<and> chain_bytes (m_head c) = [] \<and> m_size c = 0"
  using makeRoomForWrite_room[OF Cord_new_ok assms]
  by (auto simp: Cord_reserved_def Cord_new_def)


lemma apply_chain_copy_into:
  "computeChainDataLength chain \<le> tailroom d \<Longrightarrow>
   apply_chain copy_into chain (Inr d) = (True, Inr (d\<lparr>data := data d @ chain_bytes chain\<rparr>))"
proof (induction chain arbitrary: d)
  case Nil
  then show ?case by simp
next
  case (Cons b bs)
  from Cons.prems have fit: "length (data b) \<le> tailroom d" 
    and rest: "computeChainDataLength bs \<le> tailroom (d\<lparr>data := data d @ data b\<rparr>)"
    by (simp_all add: tailroom_def)
  from Cons.IH[OF rest] fit show ?case
    by (simp add: copy_into_def)
qed

lemma Cord_append_cord_empty:
  "Cord_size rhs = 0 \<Longrightarrow> Cord_append_cord rhs c = Inr c"
  by (simp add: Cord_append_cord_def)

lemma Cord_copy_ok:
  assumes "Cord_ok rhs" "Cord_size rhs \<noteq> 0"
  shows "snd (Cord_apply copy_into rhs (Inr (IOBuf_create (Cord_size rhs))))
         = Inr \<lparr>capacity = m_size rhs, headroom = 0, data = chain_bytes (m_head rhs)\<rparr>"
proof -
  have "computeChainDataLength (m_head rhs) \<le> tailroom (IOBuf_create (Cord_size rhs))"
    using assms(1) by (simp add: Cord_ok_def IOBuf_create_def tailroom_def Cord_size_def)
  from apply_chain_copy_into[OF this] assms(2) show ?thesis
    by (simp add: Cord_apply_def Cord_empty_def IOBuf_create_def Cord_size_def)
qed

lemma Cord_append_cord_null:
  assumes "Cord_ok rhs" "Cord_size rhs \<noteq> 0" "m_head c = []"
  shows "Cord_append_cord rhs c = Inl NullDeref"
  using Cord_copy_ok[OF assms(1,2)] assms(2,3)
  by (simp add: Cord_append_cord_def Let_def)

lemma Cord_append_cord_content:
  assumes "Cord_ok rhs" "Cord_ok c" "m_head c \<noteq> []"
  shows "\<exists>c'. Cord_append_cord rhs c = Inr c' \<and> Cord_ok c' \<and> Cord_str c' = Cord_str c @ Cord_str rhs
            \<and> Cord_size c' = Cord_size c + Cord_size rhs
            \<and> (Cord_size rhs \<noteq> 0 \<longrightarrow> m_head c' = m_head c @ [\<lparr>capacity = Cord_size rhs, headroom = 0, data = Cord_str rhs\<rparr>])"
proof (cases "Cord_size rhs = 0")
  case True
  then have "Cord_str rhs = []"
    by (simp add: Cord_str_def appendTo_def Cord_empty_def)
  then show ?thesis using True assms(2) by (simp add: Cord_append_cord_empty)
next
  case False
  let ?t = "\<lparr>capacity = m_size rhs, headroom = 0, data = chain_bytes (m_head rhs)\<rparr>"
  have r: "Cord_append_cord rhs c = Inr (c\<lparr>m_head := m_head c @ [?t], m_size := m_size c + Cord_size rhs\<rparr>)"
    using Cord_copy_ok[OF assms(1) False] False assms(3)
    by (simp add: Cord_append_cord_def Let_def)
  have ok': "Cord_ok (c\<lparr>m_head := m_head c @ [?t], m_size := m_size c + Cord_size rhs\<rparr>)"
    using assms(1,2) by (simp add: Cord_ok_def IOBuf_ok_def length_chain_bytes Cord_size_def)
  show ?thesis
    using r ok' Cord_str_ok[OF ok'] Cord_str_ok[OF assms(1)] Cord_str_ok[OF assms(2)]
    by (simp add: Cord_size_def)
qed

section \<open>Facts about the row-length prefix\<close>

lemma unat_drop7: "unat (drop_bit 7 (v::uint64)) = unat v div 128"
  by (simp add: drop_bit_eq_div unat_div)

lemma encodeVarint_nonempty: "encodeVarint v \<noteq> []"
  by (subst encodeVarint.simps) simp

lemma m7: "(0x7f :: 'a::len word) = mask 7"
  by (simp add: mask_eq_exp_minus_1)

lemma b80: "bit (0x80 :: byte) n = (n = 7)"
proof -
  have "(0x80 :: byte) = 2 ^ 7" by simp
  then show ?thesis by (simp only: bit_exp_iff) (auto simp: possible_bit_def)
qed

lemma b80_int: "bit (128 :: int) n = (n = 7)"
proof -
  have "(128 :: int) = 2 ^ 7" by simp
  then show ?thesis by (simp only: bit_exp_iff) (auto simp: possible_bit_def)
qed

lemma byte_low7: "((0x80 OR ucast ((v::uint64) AND 0x7f)) AND 0x7f :: byte) = ucast (v AND 0x7f)"
  unfolding m7
  by (rule bit_word_eqI) (auto simp: bit_simps b80 b80_int)

lemma unat_low7: "unat (ucast ((v::uint64) AND 0x7f) :: byte) = unat v mod 128"
proof -
  have "(ucast (v AND mask 7) :: byte) = ucast (take_bit 7 v)"
    by (simp add: take_bit_eq_mask)
  have "unat (ucast (take_bit 7 v) :: byte) = take_bit 8 (take_bit 7 (unat v))"
    by (simp add: unsigned_ucast_eq unsigned_take_bit_eq)
  also have "\<dots> = unat v mod 128"
    by (simp add: take_bit_eq_mod)
  finally show ?thesis unfolding m7 by (simp add: take_bit_eq_mask)
qed

lemma small_byte: "\<not> 128 \<le> (v::uint64) \<Longrightarrow> unat ((ucast v :: byte) AND 0x7f) = unat v"
proof -
  assume "\<not> 128 \<le> v"
  then have lt: "unat v < 128" by (simp add: word_le_nat_alt)
  have "unat ((ucast v :: byte) AND mask 7) = take_bit 7 (take_bit 8 (unat v))"
    by (simp add: unsigned_ucast_eq unsigned_take_bit_eq flip: take_bit_eq_mask)
  also have "\<dots> = unat v" using lt by (simp add: take_bit_eq_mod)
  finally show ?thesis unfolding m7 .
qed

lemma small_bit7: "\<not> 128 \<le> (v::uint64) \<Longrightarrow> \<not> bit (ucast v :: byte) 7"
proof -
  assume "\<not> 128 \<le> v"
  then have lt: "unat v < 2 ^ 7" by (simp add: word_le_nat_alt)
  have "bit (ucast v :: byte) 7 = bit (unat v) 7"
    by (simp add: bit_simps)
  moreover have "\<not> bit (unat v) 7"
    using lt bit_nat_ge[of "unat v" 7] by auto
  ultimately show ?thesis by simp
qed

lemma cont_bit7: "bit (0x80 OR x :: byte) 7"
  by (simp add: bit_or_iff b80)

lemma varint_value_encode: "varint_value (encodeVarint v) = unat v"
proof (induction v rule: encodeVarint.induct)
  case (1 val)
  show ?case
  proof (cases "128 \<le> val")
    case True
    have "encodeVarint val = (0x80 OR ucast (val AND 0x7f)) # encodeVarint (drop_bit 7 val)"
      using True by (subst encodeVarint.simps) simp
    then have "varint_value (encodeVarint val) = unat val mod 128 + 128 * unat (drop_bit 7 val)"
      using 1[OF True] by (simp add: byte_low7 unat_low7)
    also have "\<dots> = unat val"
      by (simp only: unat_drop7) simp
    finally show ?thesis .
  next
    case False
    then show ?thesis by (subst encodeVarint.simps) (simp add: small_byte)
  qed
qed


lemma encodeVarint_continuation:
  "list_all (\<lambda>b. bit b 7) (butlast (encodeVarint v)) \<and> \<not> bit (last (encodeVarint v)) 7"
proof (induction v rule: encodeVarint.induct)
  case (1 val)
  show ?case
  proof (cases "128 \<le> val")
    case True
    have "encodeVarint val = (0x80 OR ucast (val AND 0x7f)) # encodeVarint (drop_bit 7 val)"
      using True by (subst encodeVarint.simps) simp
    then show ?thesis
      using 1[OF True] encodeVarint_nonempty[of "drop_bit 7 val"] cont_bit7
      by simp
  next
    case False
    then show ?thesis by (subst (1 2) encodeVarint.simps) (simp add: small_bit7)
  qed
qed

lemma encodeVarint_length:
  "unat v < 128 ^ k \<Longrightarrow> 1 \<le> k \<Longrightarrow> length (encodeVarint v) \<le> k"
proof (induction k arbitrary: v)
  case 0
  then show ?case by simp
next
  case (Suc k)
  show ?case
  proof (cases "128 \<le> v")
    case True
    then have ge: "128 \<le> unat v" by (simp add: word_le_nat_alt)
    have e: "encodeVarint v = (0x80 OR ucast (v AND 0x7f)) # encodeVarint (drop_bit 7 v)"
      using True by (subst encodeVarint.simps) simp
    have k1: "1 \<le> k"
    proof (rule ccontr)
      assume "\<not> 1 \<le> k"
      then have "k = 0" by simp
      with Suc.prems(1) ge show False by simp
    qed
    have "unat (drop_bit 7 v) < 128 ^ k"
      using Suc.prems(1) by (simp add: unat_drop7 less_mult_imp_div_less mult.commute)
    from Suc.IH[OF this k1] e show ?thesis by simp
  next
    case False
    then show ?thesis by (subst encodeVarint.simps) simp
  qed
qed

lemma encodeVarint_length_10: "length (encodeVarint v) \<le> 10"
proof -
  have "unat v < 2 ^ 64" using unsigned_less[of v] by simp
  also have "(2::nat) ^ 64 \<le> 128 ^ 10" by simp
  finally show ?thesis by (intro encodeVarint_length) simp_all
qed

lemma addRows_data:
  "rsw_data (addRows rows w) =
     rsw_data w @ concat (map (\<lambda>row. encodeVarint (word_of_nat (length row)) @ row) rows)"
  by (induction rows arbitrary: w) (simp_all add: addRow_def writeRowLength_def)

lemma encodeVarint_small: "\<not> 128 \<le> v \<Longrightarrow> encodeVarint v = [ucast v]"
  by (subst encodeVarint.simps) simp

section \<open>Facts about RowWriter\<close>

lemma int64_t_id: "- (2 ^ 63) \<le> n \<Longrightarrow> n < 2 ^ 63 \<Longrightarrow> int64_t n = n"
  unfolding int64_t_def sint_sbintrunc' by (rule signed_take_bit_int_eq_self) simp_all

lemma int32_t_id: "- (2 ^ 31) \<le> n \<Longrightarrow> n < 2 ^ 31 \<Longrightarrow> int32_t n = n"
  unfolding int32_t_def sint_sbintrunc' by (rule signed_take_bit_int_eq_self) simp_all

lemma int64_t_small [simp]: "int64_t 0 = 0" "int64_t 1 = 1"
  by (simp_all add: int64_t_def)

lemma and_then_simps [simp]:
  "and_then (Inl e) f = Inl e"
  "and_then (Inr x) f = f x"
  by (simp_all add: and_then_def)

lemma and_then_Inr_iff:
  "and_then m f = Inr y \<longleftrightarrow> (\<exists>x. m = Inr x \<and> f x = Inr y)"
  by (cases m) simp_all

lemma length_word_bytes [simp]: "length (word_bytes n w) = n"
  by (simp add: word_bytes_def)

lemma length_offsets_bytes:
  "length (concat (map (\<lambda>offset. word_bytes k (f offset)) offs)) = k * length offs"
  by (induction offs) simp_all

lemma header_written_length:
  "header_written w = (written, allocated, headerBytes) \<Longrightarrow>
     length written = headerBytes \<and> headerBytes \<le> allocated"
  by (auto simp: header_written_def Let_def length_offsets_bytes split: if_splits)

lemma attach_header_result:
  assumes "header_written w = (written, allocated, headerBytes)"
  shows "attach_header w =
           Inr (\<lparr>capacity = allocated + 10, headroom = 10, data = written\<rparr> # m_head (rw_cord w),
                w\<lparr>rw_cord := \<lparr>m_size = (if m_head (rw_cord w) = [] then 0 else m_size (rw_cord w)) + length written,
                                m_head = \<lparr>capacity = allocated + 10, headroom = 10, data = written\<rparr> # m_head (rw_cord w)\<rparr>,
                   rw_encoded := True\<rparr>)"
proof -
  from header_written_length[OF assms] have l: "length written = headerBytes" "headerBytes \<le> allocated"
    by simp_all
  show ?thesis
    using assms l
    by (cases "m_head (rw_cord w) = []")
       (simp_all add: attach_header_def prependHeader_def Cord_clone_def Let_def)
qed

lemma pad_remaining_fully_written:
  "fully_written w \<Longrightarrow> pad_remaining h w = Inr w"
  by (auto simp: fully_written_def pad_remaining_def write_Skip_def)

lemma encodeToIOBuf_fully_written:
  assumes "fully_written w" "\<not> rw_encoded w"
  shows "encodeToIOBuf h w = attach_header w"
  using assms by (simp add: encodeToIOBuf_def pad_remaining_fully_written)

lemma attach_header_bytes:
  assumes "Cord_ok (rw_cord w)" "attach_header w = Inr (out, w')"
  shows "chain_bytes out = fst (header_written w) @ Cord_str (rw_cord w)"
    and "m_head (rw_cord w') = out" and "rw_encoded w'" and "out \<noteq> []"
    and "Cord_ok (rw_cord w')"
    and "rw_blockOffsets w' = rw_blockOffsets w"
    and "rw_schema w' = rw_schema w"
proof -
  obtain written allocated headerBytes where hw: "header_written w = (written, allocated, headerBytes)"
    by (cases "header_written w") auto
  from attach_header_result[OF hw] assms(2)
  have out: "out = \<lparr>capacity = allocated + 10, headroom = 10, data = written\<rparr> # m_head (rw_cord w)"
    and w': "w' = w\<lparr>rw_cord := \<lparr>m_size = (if m_head (rw_cord w) = [] then 0 else m_size (rw_cord w)) + length written,
                                m_head = \<lparr>capacity = allocated + 10, headroom = 10, data = written\<rparr> # m_head (rw_cord w)\<rparr>,
                   rw_encoded := True\<rparr>"
    by simp_all
  show "chain_bytes out = fst (header_written w) @ Cord_str (rw_cord w)"
    using out hw Cord_str_ok[OF assms(1)] by simp
  show "m_head (rw_cord w') = out" using out w' by simp
  show "rw_encoded w'" using w' by simp
  show "out \<noteq> []" using out by simp
  show "Cord_ok (rw_cord w')"
    using w' assms(1) header_written_length[OF hw]
    by (auto simp: Cord_ok_def IOBuf_ok_def)
  show "rw_blockOffsets w' = rw_blockOffsets w" using w' by simp
  show "rw_schema w' = rw_schema w" using w' by simp
qed

lemma attach_header_total: "\<exists>out w'. attach_header w = Inr (out, w')"
proof -
  obtain written allocated headerBytes where hw: "header_written w = (written, allocated, headerBytes)"
    by (cases "header_written w") auto
  from attach_header_result[OF hw] show ?thesis by blast
qed

lemma header_written_size:
  "length (fst (header_written w)) + Cord_size (rw_cord w) = RowWriter_size w"
  by (simp add: header_written_def RowWriter_size_def Let_def length_offsets_bytes)

lemma encodeToIOBuf_encoded:
  assumes "rw_encoded w" "m_head (rw_cord w) \<noteq> []"
  shows "encodeToIOBuf h w = Inr (m_head (rw_cord w), w)"
  using assms by (simp add: encodeToIOBuf_def Cord_clone_def)

lemma encodeToIOBuf_result:
  assumes "encodeToIOBuf h w = Inr (out, w')"
  shows "rw_encoded w' \<and> m_head (rw_cord w') = out \<and> out \<noteq> []"
proof (cases "rw_encoded w")
  case True
  with assms show ?thesis
    by (auto simp: encodeToIOBuf_def Cord_clone_def split: if_splits)
next
  case False
  with assms obtain w1 where "pad_remaining h w = Inr w1" "attach_header w1 = Inr (out, w')"
    by (auto simp: encodeToIOBuf_def and_then_Inr_iff)
  then obtain written allocated headerBytes where hw: "header_written w1 = (written, allocated, headerBytes)"
    by (cases "header_written w1") auto
  from attach_header_result[OF hw] \<open>attach_header w1 = Inr (out, w')\<close>
  show ?thesis by auto
qed

lemma encodeToIOBuf_idem:
  assumes "encodeToIOBuf h w = Inr (out, w')"
  shows "encodeToIOBuf h w' = Inr (out, w')"
  using encodeToIOBuf_result[OF assms] by (simp add: encodeToIOBuf_encoded)

lemma encode_idem:
  assumes "encode h w = Inr (bytes, w')"
  shows "encode h w' = Inr (bytes, w') \<and> rw_encoded w'"
proof (cases "rw_encoded w")
  case True
  with assms show ?thesis by (auto simp: encode_def encodeTo_def)
next
  case False
  with assms obtain out where e: "encodeToIOBuf h w = Inr (out, w')"
    and b: "bytes = snd (appendTo (rw_cord w') [])"
    by (auto simp: encode_def encodeTo_def and_then_Inr_iff)
  from encodeToIOBuf_result[OF e] b show ?thesis
    by (simp add: encode_def encodeTo_def)
qed

lemma IOBuf_reserve_keeps:
  "IOBuf_ok t \<Longrightarrow> IOBuf_ok (IOBuf_reserve 0 a t) \<and> data (IOBuf_reserve 0 a t) = data t"
  by (auto simp: IOBuf_ok_def IOBuf_reserve_def)

lemma IOBuf_create_ok [simp]: "IOBuf_ok (IOBuf_create n)" "data (IOBuf_create n) = []"
  by (simp_all add: IOBuf_ok_def IOBuf_create_def)

lemma makeRoomForWrite_keeps:
  assumes "Cord_ok c" "makeRoomForWrite n c = Inr c1"
  shows "Cord_ok c1 \<and> chain_bytes (m_head c1) = chain_bytes (m_head c) \<and> m_size c1 = m_size c"
proof (cases "m_head c = []")
  case True
  with assms show ?thesis
    by (auto simp: makeRoomForWrite_def Cord_ok_def)
next
  case False
  then obtain xs t where h: "m_head c = xs @ [t]"
    by (metis append_butlast_last_id)
  from assms(1) h have okt: "IOBuf_ok t" and okxs: "list_all IOBuf_ok xs"
    and sz: "m_size c = computeChainDataLength xs + length (data t)"
    by (simp_all add: Cord_ok_def)
  from assms(2) h okxs sz okt IOBuf_reserve_keeps[OF okt] show ?thesis
    by (auto simp: makeRoomForWrite_def makeRoomForWriteSlow_def Let_def Cord_ok_def
          split: if_splits)
qed

lemma Cord_put_keeps:
  assumes "Cord_ok c" "Cord_put bs c = Inr c'"
  shows "Cord_ok c' \<and> chain_bytes (m_head c') = chain_bytes (m_head c) @ bs
         \<and> m_size c' = m_size c + length bs"
proof (cases "m_head c = []")
  case True
  with assms show ?thesis by (simp add: Cord_put_def)
next
  case False
  then obtain xs t where h: "m_head c = xs @ [t]"
    by (metis append_butlast_last_id)
  from assms(1) h have okt: "IOBuf_ok t" and okxs: "list_all IOBuf_ok xs"
    and sz: "m_size c = computeChainDataLength xs + length (data t)"
    by (simp_all add: Cord_ok_def)
  from assms(2) h okxs sz okt show ?thesis
    by (auto simp: Cord_put_def Let_def Cord_ok_def IOBuf_ok_def tailroom_def split: if_splits)
qed

lemma Cord_write_keeps:
  assumes "Cord_ok c" "Cord_write bs c = Inr c'"
  shows "Cord_ok c' \<and> chain_bytes (m_head c') = chain_bytes (m_head c) @ bs
         \<and> m_size c' = m_size c + length bs"
proof -
  from assms(2) obtain c1 where c1: "makeRoomForWrite (length bs) c = Inr c1" "Cord_put bs c1 = Inr c'"
    by (auto simp: Cord_write_def split: sum.splits)
  from makeRoomForWrite_keeps[OF assms(1) c1(1)] Cord_put_keeps[OF _ c1(2)]
  show ?thesis by simp
qed

lemma body_grows_refl [simp]: "body_grows w w"
  by (simp add: body_grows_def)

lemma body_grows_trans: "body_grows a b \<Longrightarrow> body_grows b c \<Longrightarrow> body_grows a c"
  by (auto simp: body_grows_def)

lemma cord_out_grows: "cord_out bs w = Inr w2 \<Longrightarrow> body_grows w w2"
  using Cord_write_keeps[of "rw_cord w" bs]
  by (auto simp: cord_out_def and_then_Inr_iff body_grows_def)

lemma writeInt_grows: "writeInt h v w = Inr w2 \<Longrightarrow> body_grows w w2"
  by (simp add: writeInt_def cord_out_grows)

lemma log_error_grows [simp]: "body_grows w (log_error ty w)"
  by (simp add: body_grows_def log_error_def)

lemma RW_GET_COLUMN_TYPE_grows:
  "RW_GET_COLUMN_TYPE stype w = Inr (ty, w1) \<Longrightarrow> body_grows w w1"
  by (auto simp: RW_GET_COLUMN_TYPE_def body_grows_def and_then_Inr_iff
      split: if_splits option.splits)

lemma write_bool_shape:
  assumes "write_bool h v w = Inr w'"
  shows "\<exists>w2. w' = RW_CLEAN_UP_WRITE w2 \<and> body_grows w w2"
proof -
  from assms obtain ty w1 w2 where g: "RW_GET_COLUMN_TYPE BOOL w = Inr (ty, w1)"
    and b: "(case ty of BOOL \<Rightarrow> cord_out (scalar_bytes (SBool v)) w1
          | _ \<Rightarrow> cord_out (scalar_bytes (SBool False)) (log_error ''bool'' w1)) = Inr w2"
    and e: "w' = RW_CLEAN_UP_WRITE w2"
    by (auto simp: write_bool_def and_then_Inr_iff)
  have "body_grows w1 w2"
    using b by (cases ty) (auto dest!: cord_out_grows intro: body_grows_trans[OF log_error_grows])
  with RW_GET_COLUMN_TYPE_grows[OF g] e show ?thesis
    by (blast intro: body_grows_trans)
qed

lemma write_float_shape:
  assumes "write_float h v w = Inr w'"
  shows "\<exists>w2. w' = RW_CLEAN_UP_WRITE w2 \<and> body_grows w w2"
proof -
  from assms obtain ty w1 w2 where g: "RW_GET_COLUMN_TYPE FLOAT w = Inr (ty, w1)"
    and b: "(case ty of
            FLOAT \<Rightarrow> cord_out (scalar_bytes (SFloat v)) w1
          | DOUBLE \<Rightarrow> cord_out (scalar_bytes (SDouble (floatToDouble h v))) w1
          | _ \<Rightarrow> cord_out (scalar_bytes (SFloat 0)) (log_error ''float'' w1)) = Inr w2"
    and e: "w' = RW_CLEAN_UP_WRITE w2"
    by (auto simp: write_float_def and_then_Inr_iff)
  have "body_grows w1 w2"
    using b by (cases ty) (auto dest!: cord_out_grows intro: body_grows_trans[OF log_error_grows])
  with RW_GET_COLUMN_TYPE_grows[OF g] e show ?thesis
    by (blast intro: body_grows_trans)
qed

lemma write_double_shape:
  assumes "write_double h v w = Inr w'"
  shows "\<exists>w2. w' = RW_CLEAN_UP_WRITE w2 \<and> body_grows w w2"
proof -
  from assms obtain ty w1 w2 where g: "RW_GET_COLUMN_TYPE DOUBLE w = Inr (ty, w1)"
    and b: "(case ty of
            FLOAT \<Rightarrow> cord_out (scalar_bytes (SFloat (doubleToFloat h v))) w1
          | DOUBLE \<Rightarrow> cord_out (scalar_bytes (SDouble v)) w1
          | _ \<Rightarrow> cord_out (scalar_bytes (SDouble 0)) (log_error ''double'' w1)) = Inr w2"
    and e: "w' = RW_CLEAN_UP_WRITE w2"
    by (auto simp: write_double_def and_then_Inr_iff)
  have "body_grows w1 w2"
    using b by (cases ty) (auto dest!: cord_out_grows intro: body_grows_trans[OF log_error_grows])
  with RW_GET_COLUMN_TYPE_grows[OF g] e show ?thesis
    by (blast intro: body_grows_trans)
qed

lemma write_string_shape:
  assumes "write_string h v w = Inr w'"
  shows "\<exists>w2. w' = RW_CLEAN_UP_WRITE w2 \<and> body_grows w w2"
proof -
  from assms obtain ty w1 w2 where g: "RW_GET_COLUMN_TYPE STRING w = Inr (ty, w1)"
    and b: "(case ty of
            STRING \<Rightarrow> and_then (writeInt h (int (length v)) w1) (cord_out v)
          | _ \<Rightarrow> writeInt h 0 (log_error ''string'' w1)) = Inr w2"
    and e: "w' = RW_CLEAN_UP_WRITE w2"
    by (auto simp: write_string_def and_then_Inr_iff)
  have "body_grows w1 w2"
    using b
    by (cases ty)
       (auto simp: and_then_Inr_iff dest!: cord_out_grows writeInt_grows
             intro: body_grows_trans[OF log_error_grows] body_grows_trans)
  with RW_GET_COLUMN_TYPE_grows[OF g] e show ?thesis
    by (blast intro: body_grows_trans)
qed

lemma write_val_shape:
  "write_val h v w = Inr w' \<Longrightarrow> \<exists>w2. w' = RW_CLEAN_UP_WRITE w2 \<and> body_grows w w2"
  by (cases v) (auto dest: write_bool_shape write_float_shape write_double_shape write_string_shape)

lemma RW_CLEAN_UP_WRITE_fields:
  "rw_colNum (RW_CLEAN_UP_WRITE w) = rw_colNum w + 1"
  "rw_cord (RW_CLEAN_UP_WRITE w) = rw_cord w"
  "rw_blockOffsets (RW_CLEAN_UP_WRITE w) =
     rw_blockOffsets w @
       (if rw_colNum w \<noteq> 0 \<and> rw_colNum w mod 16 = 0 then [Cord_size (rw_cord w)] else [])"
  "rw_schemaWriter (RW_CLEAN_UP_WRITE w) = rw_schemaWriter w"
  "rw_encoded (RW_CLEAN_UP_WRITE w) = rw_encoded w"
  "rw_log (RW_CLEAN_UP_WRITE w) = rw_log w"
  "\<not> rw_schemaWriter w \<Longrightarrow> rw_schema (RW_CLEAN_UP_WRITE w) = rw_schema w"
  by (simp_all add: RW_CLEAN_UP_WRITE_def Let_def split: option.splits)

lemma RowWriter_ok_grows:
  assumes "RowWriter_ok w" "body_grows w w1"
  shows "RowWriter_ok w1"
    and "RowWriter_ok (w1\<lparr>rw_blockOffsets := rw_blockOffsets w1 @ [Cord_size (rw_cord w1)]\<rparr>)"
proof -
  from assms have c: "Cord_ok (rw_cord w1)" and le: "m_size (rw_cord w) \<le> m_size (rw_cord w1)"
    and o: "rw_blockOffsets w1 = rw_blockOffsets w"
    by (simp_all add: RowWriter_ok_def body_grows_def)
  from assms(1) have s: "sorted (rw_blockOffsets w)"
    and b: "\<forall>offset \<in> set (rw_blockOffsets w). offset \<le> m_size (rw_cord w)"
    by (simp_all add: RowWriter_ok_def list_all_iff Cord_size_def)
  from b le have b1: "\<forall>offset \<in> set (rw_blockOffsets w). offset \<le> m_size (rw_cord w1)"
    by fastforce
  show "RowWriter_ok w1"
    using c o s b1 by (simp add: RowWriter_ok_def list_all_iff Cord_size_def)
  show "RowWriter_ok (w1\<lparr>rw_blockOffsets := rw_blockOffsets w1 @ [Cord_size (rw_cord w1)]\<rparr>)"
    using c o s b1 by (simp add: RowWriter_ok_def list_all_iff Cord_size_def sorted_append)
qed

lemma RW_CLEAN_UP_WRITE_ok:
  assumes "RowWriter_ok w" shows "RowWriter_ok (RW_CLEAN_UP_WRITE w)"
proof -
  have g: "body_grows w w" by simp
  from RowWriter_ok_grows[OF assms g] show ?thesis
    by (auto simp: RowWriter_ok_def RW_CLEAN_UP_WRITE_fields)
qed

lemma write_val_ok:
  assumes "RowWriter_ok w" "write_val h v w = Inr w'"
  shows "RowWriter_ok w'"
proof -
  from write_val_shape[OF assms(2)] obtain w2 where w2: "w' = RW_CLEAN_UP_WRITE w2" "body_grows w w2"
    by blast
  from RowWriter_ok_grows(1)[OF assms(1) w2(2)] w2(1) show ?thesis
    by (simp add: RW_CLEAN_UP_WRITE_ok)
qed

lemma write_val_step:
  assumes "write_val h v w = Inr w'"
  shows "rw_colNum w' = rw_colNum w + 1"
    and "rw_blockOffsets w' = rw_blockOffsets w @
           (if rw_colNum w \<noteq> 0 \<and> rw_colNum w mod 16 = 0 then [Cord_size (rw_cord w')] else [])"
    and "rw_schemaWriter w' = rw_schemaWriter w"
    and "rw_encoded w' = rw_encoded w"
    and "\<not> rw_schemaWriter w \<Longrightarrow> rw_schema w' = rw_schema w"
proof -
  from write_val_shape[OF assms] obtain w2 where w2: "w' = RW_CLEAN_UP_WRITE w2" "body_grows w w2"
    by blast
  then show "rw_colNum w' = rw_colNum w + 1"
    and "rw_blockOffsets w' = rw_blockOffsets w @
           (if rw_colNum w \<noteq> 0 \<and> rw_colNum w mod 16 = 0 then [Cord_size (rw_cord w')] else [])"
    and "rw_schemaWriter w' = rw_schemaWriter w"
    and "rw_encoded w' = rw_encoded w"
    and "\<not> rw_schemaWriter w \<Longrightarrow> rw_schema w' = rw_schema w"
    by (simp_all add: RW_CLEAN_UP_WRITE_fields body_grows_def)
qed

lemma skip_default_grows: "skip_default h ty w = Inr w1 \<Longrightarrow> body_grows w w1"
  by (cases ty) (auto dest: cord_out_grows writeInt_grows)

lemma block_boundary: "(push_bit 4 (drop_bit 4 i) = i) = (i mod 16 = 0)" for i :: int
proof -
  have "i div 16 * 16 + i mod 16 = i" by simp
  then have "(i div 16 * 16 = i) = (i mod 16 = 0)" by linarith
  then show ?thesis by (simp add: push_bit_eq_mult drop_bit_eq_div)
qed

lemma skip_loop_done: "\<not> i < k \<Longrightarrow> skip_loop h i k w = Inr w"
  by (subst skip_loop.simps) simp

lemma skip_loop_step:
  "i < k \<Longrightarrow> skip_loop h i k w =
     and_then (getFieldType (rw_schema w) i) (\<lambda>ty.
       and_then (skip_default h ty w) (\<lambda>w1.
         skip_loop h (i + 1) k
           (if i \<noteq> 0 \<and> i mod 16 = 0
            then w1\<lparr>rw_blockOffsets := rw_blockOffsets w1 @ [Cord_size (rw_cord w1)]\<rparr>
            else w1)))"
  by (subst skip_loop.simps) (simp add: block_boundary)

lemma skip_loop_ok:
  "RowWriter_ok w \<Longrightarrow> skip_loop h i k w = Inr w' \<Longrightarrow>
     RowWriter_ok w' \<and> rw_schema w' = rw_schema w \<and> rw_schemaWriter w' = rw_schemaWriter w
     \<and> rw_encoded w' = rw_encoded w \<and> rw_colNum w' = rw_colNum w"
proof (induction h i k w rule: skip_loop.induct)
  case (1 h i skipTo w)
  show ?case
  proof (cases "i < skipTo")
    case False
    with "1.prems" show ?thesis by (simp add: skip_loop_done)
  next
    case True
    from "1.prems"(2) True obtain ty w1 where ty: "getFieldType (rw_schema w) i = Inr ty"
      and w1: "skip_default h ty w = Inr w1"
      and rest: "skip_loop h (i + 1) skipTo
           (if i \<noteq> 0 \<and> i mod 16 = 0
            then w1\<lparr>rw_blockOffsets := rw_blockOffsets w1 @ [Cord_size (rw_cord w1)]\<rparr>
            else w1) = Inr w'"
      by (auto simp: skip_loop_step and_then_Inr_iff)
    let ?w1 = "(if i \<noteq> 0 \<and> push_bit 4 (drop_bit 4 i) = i
            then w1\<lparr>rw_blockOffsets := rw_blockOffsets w1 @ [Cord_size (rw_cord w1)]\<rparr>
            else w1)"
    have g: "body_grows w w1" using skip_default_grows[OF w1] .
    have ok1: "RowWriter_ok ?w1"
      using RowWriter_ok_grows[OF "1.prems"(1) g] by simp
    have rest': "skip_loop h (i + 1) skipTo ?w1 = Inr w'"
      using rest by (simp add: block_boundary)
    from "1.IH"[OF True ok1 rest'] g show ?thesis
      by (auto simp: body_grows_def)
  qed
qed

lemma write_Skip_ok:
  assumes "RowWriter_ok w" "write_Skip h n w = Inr w'"
  shows "RowWriter_ok w' \<and> rw_schema w' = rw_schema w \<and> rw_schemaWriter w' = rw_schemaWriter w
     \<and> rw_encoded w' = rw_encoded w"
proof (cases "n \<le> 0")
  case True
  with assms show ?thesis by (auto simp: write_Skip_def split: if_splits)
next
  case False
  with assms(2) obtain i k w1 where
    l: "skip_loop h i k w = Inr w1" and e: "w' = w1\<lparr>rw_colNum := k\<rparr>"
    by (auto simp: write_Skip_def Let_def and_then_Inr_iff split: if_splits)
  from skip_loop_ok[OF assms(1) l] e show ?thesis
    by (auto simp: RowWriter_ok_def)
qed

lemma rw_apply_ok:
  assumes "RowWriter_ok w" "rw_apply h op w = Inr w'"
  shows "RowWriter_ok w'"
proof (cases op)
  case (Put v)
  with assms show ?thesis by (simp add: write_val_ok)
next
  case (Skip n)
  with assms show ?thesis using write_Skip_ok[of w h "int64_t n" w'] by simp
next
  case (ColName name)
  with assms show ?thesis
    by (auto simp: write_ColName_def RowWriter_ok_def split: if_splits)
next
  case (ColType ty)
  with assms show ?thesis
    by (auto simp: write_ColType_def RowWriter_ok_def split: if_splits)
qed

lemma rw_run_ok:
  "RowWriter_ok w \<Longrightarrow> rw_run h ops w = Inr w' \<Longrightarrow> RowWriter_ok w'"
proof (induction ops arbitrary: w)
  case Nil
  then show ?case by simp
next
  case (Cons op ops)
  from Cons.prems(2) obtain w1 where "rw_apply h op w = Inr w1" "rw_run h ops w1 = Inr w'"
    by (auto simp: and_then_Inr_iff)
  with Cons.IH rw_apply_ok[OF Cons.prems(1)] show ?case by blast
qed

lemma RowWriter_new_ok: "RowWriter_ok (RowWriter_new schema)"
  by (simp add: RowWriter_ok_def RowWriter_new_def Cord_new_ok)

lemma and_then_Inr_right [simp]: "and_then m Inr = m"
  by (cases m) simp_all

lemma and_then_assoc: "and_then (and_then m f) g = and_then m (\<lambda>x. and_then (f x) g)"
  by (cases m) simp_all

lemma cord_out_colNum:
  "cord_out bs (w\<lparr>rw_colNum := x\<rparr>) = and_then (cord_out bs w) (\<lambda>w'. Inr (w'\<lparr>rw_colNum := x\<rparr>))"
  by (cases "Cord_write bs (rw_cord w)") (simp_all add: cord_out_def)

lemma skip_default_colNum:
  "skip_default h ty (w\<lparr>rw_colNum := x\<rparr>) =
     and_then (skip_default h ty w) (\<lambda>w'. Inr (w'\<lparr>rw_colNum := x\<rparr>))"
  by (cases ty) (simp_all add: cord_out_colNum writeInt_def)

lemma skip_loop_colNum:
  "skip_loop h i k (w\<lparr>rw_colNum := x\<rparr>) =
     and_then (skip_loop h i k w) (\<lambda>w'. Inr (w'\<lparr>rw_colNum := x\<rparr>))"
proof (induction h i k w rule: skip_loop.induct)
  case (1 h i skipTo w)
  show ?case
  proof (cases "i < skipTo")
    case False
    then show ?thesis by (simp add: skip_loop_done)
  next
    case True
    show ?thesis
    proof (cases "getFieldType (rw_schema w) i")
      case (Inl e)
      with True show ?thesis by (simp add: skip_loop_step)
    next
      case (Inr ty)
      show ?thesis
      proof (cases "skip_default h ty w")
        case (Inl e)
        with True Inr show ?thesis by (simp add: skip_loop_step skip_default_colNum)
      next
        case w1: (Inr w1)
        let ?w1 = "(if i \<noteq> 0 \<and> push_bit 4 (drop_bit 4 i) = i
            then w1\<lparr>rw_blockOffsets := rw_blockOffsets w1 @ [Cord_size (rw_cord w1)]\<rparr>
            else w1)"
        have a: "skip_loop h i skipTo w = skip_loop h (i + 1) skipTo ?w1"
          using True Inr w1 by (simp add: skip_loop_step block_boundary)
        have "skip_loop h i skipTo (w\<lparr>rw_colNum := x\<rparr>) =
              skip_loop h (i + 1) skipTo
                (if i \<noteq> 0 \<and> i mod 16 = 0
                 then w1\<lparr>rw_colNum := x\<rparr>\<lparr>rw_blockOffsets := rw_blockOffsets w1 @ [Cord_size (rw_cord w1)]\<rparr>
                 else w1\<lparr>rw_colNum := x\<rparr>)"
          using True Inr w1 by (simp add: skip_loop_step skip_default_colNum)
        also have "(if i \<noteq> 0 \<and> i mod 16 = 0
                 then w1\<lparr>rw_colNum := x\<rparr>\<lparr>rw_blockOffsets := rw_blockOffsets w1 @ [Cord_size (rw_cord w1)]\<rparr>
                 else w1\<lparr>rw_colNum := x\<rparr>) = ?w1\<lparr>rw_colNum := x\<rparr>"
          by (simp add: block_boundary)
        also have "skip_loop h (i + 1) skipTo (?w1\<lparr>rw_colNum := x\<rparr>) =
            and_then (skip_loop h (i + 1) skipTo ?w1) (\<lambda>w'. Inr (w'\<lparr>rw_colNum := x\<rparr>))"
          by (rule "1.IH"[OF True])
        finally show ?thesis by (simp only: a)
      qed
    qed
  qed
qed

lemma skip_loop_split:
  "i \<le> j \<Longrightarrow> j \<le> k \<Longrightarrow>
     skip_loop h i k w = and_then (skip_loop h i j w) (skip_loop h j k)"
proof (induction h i j w rule: skip_loop.induct)
  case (1 h i j w)
  show ?case
  proof (cases "i < j")
    case False
    with "1.prems" have "i = j" by simp
    then show ?thesis by (simp add: skip_loop_done)
  next
    case True
    then have ik: "i < k" using "1.prems" by simp
    have ij: "i + 1 \<le> j" using True by simp
    show ?thesis
    proof (cases "getFieldType (rw_schema w) i")
      case (Inl e)
      with True ik show ?thesis by (simp add: skip_loop_step)
    next
      case (Inr ty)
      show ?thesis
      proof (cases "skip_default h ty w")
        case (Inl e)
        with True ik Inr show ?thesis by (simp add: skip_loop_step)
      next
        case w1: (Inr w1)
        from "1.IH"[OF True ij "1.prems"(2), of w1] True ik Inr w1 show ?thesis
          by (simp add: skip_loop_step block_boundary)
      qed
    qed
  qed
qed

lemma skip_loop_frame:
  "skip_loop h i k w = Inr w' \<Longrightarrow>
     rw_schema w' = rw_schema w \<and> rw_schemaWriter w' = rw_schemaWriter w
     \<and> rw_colNum w' = rw_colNum w \<and> rw_encoded w' = rw_encoded w"
proof (induction h i k w rule: skip_loop.induct)
  case (1 h i skipTo w)
  show ?case
  proof (cases "i < skipTo")
    case False
    with "1.prems" show ?thesis by (simp add: skip_loop_done)
  next
    case True
    from "1.prems" True obtain ty w1 where ty: "getFieldType (rw_schema w) i = Inr ty"
      and w1: "skip_default h ty w = Inr w1"
      and rest: "skip_loop h (i + 1) skipTo
           (if i \<noteq> 0 \<and> push_bit 4 (drop_bit 4 i) = i
            then w1\<lparr>rw_blockOffsets := rw_blockOffsets w1 @ [Cord_size (rw_cord w1)]\<rparr>
            else w1) = Inr w'"
      by (auto simp: skip_loop_step and_then_Inr_iff block_boundary)
    from "1.IH"[OF True rest] skip_default_grows[OF w1] show ?thesis
      by (auto simp: body_grows_def)
  qed
qed

lemma skip_loop_one:
  "skip_loop h i (i + 1) w =
     and_then (getFieldType (rw_schema w) i) (\<lambda>ty.
       and_then (skip_default h ty w) (\<lambda>w1.
         Inr (if i \<noteq> 0 \<and> i mod 16 = 0
              then w1\<lparr>rw_blockOffsets := rw_blockOffsets w1 @ [Cord_size (rw_cord w1)]\<rparr>
              else w1)))"
  by (simp add: skip_loop_step skip_loop_done)

lemma write_Skip_in_range:
  assumes "within_schema w" and "0 < n" and "rw_colNum w + n < 2 ^ 63"
  shows "write_Skip h n w =
     and_then (skip_loop h (rw_colNum w)
                 (min (rw_colNum w + n) (int (getNumFields (rw_schema w)))) w)
       (\<lambda>w'. Inr (w'\<lparr>rw_colNum := min (rw_colNum w + n) (int (getNumFields (rw_schema w)))\<rparr>))"
proof -
  let ?N = "int (getNumFields (rw_schema w))"
  from assms(1) have nsw: "\<not> rw_schemaWriter w" and c0: "0 \<le> rw_colNum w"
    and cN: "rw_colNum w \<le> ?N" and N: "?N < 2 ^ 31"
    by (simp_all add: within_schema_def)
  have a: "int64_t (rw_colNum w + n) = rw_colNum w + n"
    using c0 assms(2,3) by (intro int64_t_id) simp_all
  have b: "int64_t ?N = ?N" using N by (intro int64_t_id) simp_all
  have c: "int32_t (min (rw_colNum w + n) ?N) = min (rw_colNum w + n) ?N"
    using c0 assms(2) N by (intro int32_t_id) simp_all
  have d: "int32_t (rw_colNum w) = rw_colNum w"
    using c0 cN N by (intro int32_t_id) simp_all
  show ?thesis using nsw assms(2) by (simp add: write_Skip_def Let_def a b c d)
qed

lemma write_Skip_one:
  assumes "within_schema w"
  shows "write_Skip h 1 w =
     (if rw_colNum w < int (getNumFields (rw_schema w))
      then and_then (skip_loop h (rw_colNum w) (rw_colNum w + 1) w)
             (\<lambda>w'. Inr (w'\<lparr>rw_colNum := rw_colNum w + 1\<rparr>))
      else Inr (w\<lparr>rw_colNum := int (getNumFields (rw_schema w))\<rparr>))"
proof -
  from assms have cN: "rw_colNum w \<le> int (getNumFields (rw_schema w))"
    and N: "int (getNumFields (rw_schema w)) < 2 ^ 31"
    by (simp_all add: within_schema_def)
  have r: "rw_colNum w + 1 < 2 ^ 63" using cN N by simp
  show ?thesis
  proof (cases "rw_colNum w < int (getNumFields (rw_schema w))")
    case True
    then have "min (rw_colNum w + 1) (int (getNumFields (rw_schema w))) = rw_colNum w + 1"
      by simp
    with True write_Skip_in_range[OF assms _ r, of h] show ?thesis by simp
  next
    case False
    with cN have "min (rw_colNum w + 1) (int (getNumFields (rw_schema w)))
        = int (getNumFields (rw_schema w))"
      and "rw_colNum w = int (getNumFields (rw_schema w))"
      by simp_all
    with False write_Skip_in_range[OF assms _ r, of h] show ?thesis
      by (simp add: skip_loop_done)
  qed
qed

lemma write_Skip_step:
  assumes "within_schema w" "rw_colNum w < int (getNumFields (rw_schema w))"
    and "write_Skip h 1 w = Inr w'"
  shows "rw_colNum w' = rw_colNum w + 1"
    and "rw_blockOffsets w' = rw_blockOffsets w @
           (if rw_colNum w \<noteq> 0 \<and> rw_colNum w mod 16 = 0 then [Cord_size (rw_cord w')] else [])"
    and "rw_schemaWriter w' = rw_schemaWriter w"
    and "rw_schema w' = rw_schema w"
proof -
  let ?i = "rw_colNum w"
  from assms obtain ty w1 where ty: "getFieldType (rw_schema w) ?i = Inr ty"
    and w1: "skip_default h ty w = Inr w1"
    and e: "w' = (if ?i \<noteq> 0 \<and> ?i mod 16 = 0
              then w1\<lparr>rw_blockOffsets := rw_blockOffsets w1 @ [Cord_size (rw_cord w1)]\<rparr>
              else w1)\<lparr>rw_colNum := ?i + 1\<rparr>"
    by (auto simp: write_Skip_one skip_loop_one and_then_Inr_iff)
  from skip_default_grows[OF w1] e
  show "rw_colNum w' = rw_colNum w + 1"
    and "rw_blockOffsets w' = rw_blockOffsets w @
           (if rw_colNum w \<noteq> 0 \<and> rw_colNum w mod 16 = 0 then [Cord_size (rw_cord w')] else [])"
    and "rw_schemaWriter w' = rw_schemaWriter w"
    and "rw_schema w' = rw_schema w"
    by (simp_all add: body_grows_def)
qed

lemma write_Skip_frame:
  assumes "write_Skip h n w = Inr w'"
  shows "rw_schema w' = rw_schema w \<and> rw_schemaWriter w' = rw_schemaWriter w"
proof (cases "n \<le> 0")
  case True
  with assms show ?thesis by (auto simp: write_Skip_def split: if_splits)
next
  case False
  with assms obtain i k w1 where
    l: "skip_loop h i k w = Inr w1" and e: "w' = w1\<lparr>rw_colNum := k\<rparr>"
    by (auto simp: write_Skip_def Let_def and_then_Inr_iff split: if_splits)
  from skip_loop_frame[OF l] e show ?thesis by simp
qed

lemma write_Skip_one_within:
  assumes "within_schema w" "write_Skip h 1 w = Inr w1"
  shows "within_schema w1 \<and> rw_colNum w1 \<le> rw_colNum w + 1"
proof (cases "rw_colNum w < int (getNumFields (rw_schema w))")
  case True
  from write_Skip_step[OF assms(1) True assms(2)] True assms(1) show ?thesis
    by (simp add: within_schema_def)
next
  case False
  with assms show ?thesis
    by (auto simp: write_Skip_one within_schema_def)
qed

lemma write_Skip_Suc:
  assumes ws: "within_schema w" and r: "rw_colNum w + (1 + int k) < 2 ^ 63"
  shows "write_Skip h (1 + int k) w = and_then (write_Skip h 1 w) (write_Skip h (int k))"
proof (cases "rw_colNum w < int (getNumFields (rw_schema w))")
  case False
  let ?N = "int (getNumFields (rw_schema w))"
  from ws False have eq: "rw_colNum w = ?N" by (simp add: within_schema_def)
  have K: "min (rw_colNum w + (1 + int k)) ?N = ?N" using eq by simp
  have lhs: "write_Skip h (1 + int k) w = Inr (w\<lparr>rw_colNum := ?N\<rparr>)"
    using write_Skip_in_range[OF ws _ r, of h] K eq by (simp add: skip_loop_done)
  have one: "write_Skip h 1 w = Inr (w\<lparr>rw_colNum := ?N\<rparr>)"
    using ws False by (simp add: write_Skip_one)
  have ws': "within_schema (w\<lparr>rw_colNum := ?N\<rparr>)"
    using ws by (simp add: within_schema_def)
  have rest: "write_Skip h (int k) (w\<lparr>rw_colNum := ?N\<rparr>) = Inr (w\<lparr>rw_colNum := ?N\<rparr>)"
  proof (cases k)
    case 0
    then show ?thesis using ws by (simp add: write_Skip_def within_schema_def)
  next
    case (Suc k')
    have "rw_colNum (w\<lparr>rw_colNum := ?N\<rparr>) + int k < 2 ^ 63" using r eq by simp
    from write_Skip_in_range[OF ws' _ this, of h] Suc show ?thesis
      by (simp add: skip_loop_done)
  qed
  show ?thesis unfolding lhs one by (simp add: rest)
next
  case True
  let ?i = "rw_colNum w"
  let ?N = "int (getNumFields (rw_schema w))"
  define K where "K = min (?i + (1 + int k)) ?N"
  have K1: "?i + 1 \<le> K" using True by (simp add: K_def)
  have lhs: "write_Skip h (1 + int k) w =
      and_then (skip_loop h ?i K w) (\<lambda>w'. Inr (w'\<lparr>rw_colNum := K\<rparr>))"
    using write_Skip_in_range[OF ws _ r, of h] by (simp add: K_def)
  have split: "skip_loop h ?i K w = and_then (skip_loop h ?i (?i + 1) w) (skip_loop h (?i + 1) K)"
    using K1 by (intro skip_loop_split) simp_all
  have one: "write_Skip h 1 w =
      and_then (skip_loop h ?i (?i + 1) w) (\<lambda>w'. Inr (w'\<lparr>rw_colNum := ?i + 1\<rparr>))"
    using ws True by (simp add: write_Skip_one)
  show ?thesis
  proof (cases "skip_loop h ?i (?i + 1) w")
    case (Inl e)
    then show ?thesis by (simp add: lhs split one)
  next
    case (Inr w1)
    from skip_loop_frame[OF Inr] have f: "rw_schema w1 = rw_schema w" "\<not> rw_schemaWriter w1"
      using ws by (simp_all add: within_schema_def)
    have ws1: "within_schema (w1\<lparr>rw_colNum := ?i + 1\<rparr>)"
      using ws True f by (simp add: within_schema_def)
    show ?thesis
    proof (cases k)
      case 0
      have z: "write_Skip h 0 (w1\<lparr>rw_colNum := ?i + 1\<rparr>) = Inr (w1\<lparr>rw_colNum := ?i + 1\<rparr>)"
        using f by (simp add: write_Skip_def)
      have o: "write_Skip h 1 w = Inr (w1\<lparr>rw_colNum := ?i + 1\<rparr>)"
        using one Inr by simp
      show ?thesis using 0 by (simp add: o z)
    next
      case (Suc k')
      have K': "min (?i + 1 + int k) (int (getNumFields (rw_schema w1))) = K"
        using f by (simp add: K_def add.assoc)
      have r1: "rw_colNum (w1\<lparr>rw_colNum := ?i + 1\<rparr>) + int k < 2 ^ 63" using r by simp
      have r: "write_Skip h (int k) (w1\<lparr>rw_colNum := ?i + 1\<rparr>) =
          and_then (skip_loop h (?i + 1) K w1) (\<lambda>w'. Inr (w'\<lparr>rw_colNum := K\<rparr>))"
      proof (cases "skip_loop h (?i + 1) K w1")
        case (Inl e)
        then show ?thesis
          using write_Skip_in_range[OF ws1 _ r1, of h] Suc K'
          by (simp add: skip_loop_colNum)
      next
        case w2: (Inr w2)
        then show ?thesis
          using write_Skip_in_range[OF ws1 _ r1, of h] Suc K'
          by (simp add: skip_loop_colNum)
      qed
      show ?thesis using Inr by (simp add: lhs split one r)
    qed
  qed
qed

lemma write_Skip_replicate:
  "within_schema w \<Longrightarrow> rw_colNum w + int k < 2 ^ 63 \<Longrightarrow>
     write_Skip h (int k) w = rw_run h (replicate k (Skip 1)) w"
proof (induction k arbitrary: w)
  case 0
  then show ?case by (simp add: write_Skip_def within_schema_def)
next
  case (Suc k)
  from Suc.prems(2) have r: "rw_colNum w + (1 + int k) < 2 ^ 63" by simp
  show ?case
  proof (cases "write_Skip h 1 w")
    case (Inl e)
    then show ?thesis using write_Skip_Suc[OF Suc.prems(1) r, of h] by simp
  next
    case (Inr w1)
    from write_Skip_one_within[OF Suc.prems(1) Inr] r
    have "within_schema w1" "rw_colNum w1 + int k < 2 ^ 63" by simp_all
    from Suc.IH[OF this] Inr show ?thesis
      using write_Skip_Suc[OF Suc.prems(1) r, of h] by simp
  qed
qed

lemma rw_run_append:
  "rw_run h (xs @ ys) w = and_then (rw_run h xs w) (rw_run h ys)"
proof (induction xs arbitrary: w)
  case Nil
  then show ?case by simp
next
  case (Cons a xs)
  then show ?case by (cases "rw_apply h a w") simp_all
qed

lemma body_size_after_snoc:
  "i < length fs \<Longrightarrow> body_size_after h s (fs @ [f]) i = body_size_after h s fs i"
  by (simp add: body_size_after_def)

lemma body_size_after_last:
  "rw_run h (map field_op (fs @ [f])) (RowWriter_new (Some s)) = Inr w \<Longrightarrow>
   body_size_after h s (fs @ [f]) (length fs) = Cord_size (rw_cord w)"
  by (simp add: body_size_after_def)

lemma field_op_step:
  assumes "rw_apply h (field_op f) w1 = Inr w" "within_schema w1"
    "rw_colNum w1 < int (getNumFields (rw_schema w1))"
  shows "rw_colNum w = rw_colNum w1 + 1"
    and "rw_blockOffsets w = rw_blockOffsets w1 @
           (if rw_colNum w1 \<noteq> 0 \<and> rw_colNum w1 mod 16 = 0 then [Cord_size (rw_cord w)] else [])"
    and "\<not> rw_schemaWriter w"
    and "rw_schema w = rw_schema w1"
proof -
  from assms(2) have nsw: "\<not> rw_schemaWriter w1" by (simp add: within_schema_def)
  show "rw_colNum w = rw_colNum w1 + 1"
    using assms write_val_step(1)[of h _ w1 w] write_Skip_step(1)[of w1 h w]
    by (cases f) (simp_all add: field_op_def)
  show "rw_blockOffsets w = rw_blockOffsets w1 @
           (if rw_colNum w1 \<noteq> 0 \<and> rw_colNum w1 mod 16 = 0 then [Cord_size (rw_cord w)] else [])"
    using assms write_val_step(2)[of h _ w1 w] write_Skip_step(2)[of w1 h w]
    by (cases f) (simp_all add: field_op_def)
  show "\<not> rw_schemaWriter w"
    using assms nsw write_val_step(3)[of h _ w1 w] write_Skip_step(3)[of w1 h w]
    by (cases f) (simp_all add: field_op_def)
  show "rw_schema w = rw_schema w1"
    using assms nsw write_val_step(5)[of h _ w1 w] write_Skip_step(4)[of w1 h w]
    by (cases f) (simp_all add: field_op_def)
qed

lemma fields_blockOffsets:
  "rw_run h (map field_op fs) (RowWriter_new (Some s)) = Inr w \<Longrightarrow>
   length fs \<le> getNumFields s \<Longrightarrow> getNumFields s < 2 ^ 31 \<Longrightarrow>
     rw_colNum w = int (length fs) \<and> rw_schema w = s \<and> \<not> rw_schemaWriter w
     \<and> rw_blockOffsets w =
         map (body_size_after h s fs) (filter (\<lambda>i. i mod 16 = 0) [1..<length fs])"
proof (induction fs arbitrary: w rule: rev_induct)
  case Nil
  then have "w = RowWriter_new (Some s)" by simp
  then show ?case by (simp add: RowWriter_new_def)
next
  case (snoc f fs)
  let ?n = "length fs"
  from snoc.prems(1) obtain w1 where w1: "rw_run h (map field_op fs) (RowWriter_new (Some s)) = Inr w1"
    and st: "rw_apply h (field_op f) w1 = Inr w"
    by (auto simp: rw_run_append and_then_Inr_iff)
  from snoc.prems(2) have le: "?n \<le> getNumFields s" and lt: "?n < getNumFields s" by simp_all
  from snoc.IH[OF w1 le snoc.prems(3)]
  have ih: "rw_colNum w1 = int ?n" "rw_schema w1 = s" "\<not> rw_schemaWriter w1"
    "rw_blockOffsets w1 = map (body_size_after h s fs) (filter (\<lambda>i. i mod 16 = 0) [1..<?n])"
    by simp_all
  have ws1: "within_schema w1" using ih le snoc.prems(3) by (simp add: within_schema_def)
  have lt1: "rw_colNum w1 < int (getNumFields (rw_schema w1))" using ih lt by simp
  note stp = field_op_step[OF st ws1 lt1]
  have m: "(rw_colNum w1 \<noteq> 0 \<and> rw_colNum w1 mod 16 = 0) = (?n \<noteq> 0 \<and> ?n mod 16 = 0)"
    unfolding ih(1) by presburger
  have old: "map (body_size_after h s (fs @ [f])) (filter (\<lambda>i. i mod 16 = 0) [1..<?n])
           = map (body_size_after h s fs) (filter (\<lambda>i. i mod 16 = 0) [1..<?n])"
    by (rule map_cong) (auto simp: body_size_after_snoc)
  have last: "body_size_after h s (fs @ [f]) ?n = Cord_size (rw_cord w)"
    using snoc.prems(1) by (rule body_size_after_last)
  have offs: "rw_blockOffsets w =
      map (body_size_after h s (fs @ [f])) (filter (\<lambda>i. i mod 16 = 0) [1..<Suc ?n])"
  proof (cases "?n = 0")
    case True
    then show ?thesis using stp(2) ih m by simp
  next
    case False
    then have "1 \<le> ?n" by (simp add: Suc_le_eq)
    then have "[1..<Suc ?n] = [1..<?n] @ [?n]" by simp
    then show ?thesis using stp(2) ih(2,3,4) m old last False by simp
  qed
  show ?case using stp ih offs by simp
qed

lemma count_boundaries:
  "length (filter (\<lambda>i. i mod 16 = 0) [1..<n]) = (n - 1) div 16"
proof (induction n)
  case 0
  then show ?case by simp
next
  case (Suc n)
  show ?case
  proof (cases "n = 0")
    case True
    then show ?thesis by simp
  next
    case False
    then have u: "[1..<Suc n] = [1..<n] @ [n]" by simp
    have "n div 16 = (n - 1) div 16 + (if n mod 16 = 0 then 1 else 0)"
    proof -
      obtain m where m: "n = Suc m" using False by (cases n) auto
      have "Suc m div 16 = m div 16 + (if Suc m mod 16 = 0 then 1 else 0)"
        by (simp add: div_Suc)
      then show ?thesis using m by simp
    qed
    then show ?thesis using Suc.IH u by simp
  qed
qed

lemmas rw_eval = write_bool_def write_float_def write_double_def write_string_def
  RW_GET_COLUMN_TYPE_def RW_CLEAN_UP_WRITE_def getNumFields_def getFieldType_def getVersion_def
  cord_out_def log_error_def writeInt_def RowWriter_new_def
  Cord_write_def Cord_put_def makeRoomForWrite_def Cord_new_def
  makeRoomForWriteSlow_def size_t_def kMaxGrowthSize_value IOBuf_reserve_def
  alignedSize_def kBufferAlignment_def IOBuf_create_def tailroom_def
  word_bytes_def Cord_size_def Let_def

lemma replicate_numeral: "replicate (numeral k) x = x # replicate (pred_numeral k) x"
  by (simp add: numeral_eq_Suc)

lemma bools18:
  "rw_run h (replicate 18 (Put (VBool True)))
     (RowWriter_new (Some \<lparr>schemaVersion = 0, schemaFields = replicate 18 (None, BOOL)\<rparr>))
   = Inr \<lparr>rw_schema = \<lparr>schemaVersion = 0, schemaFields = replicate 18 (None, BOOL)\<rparr>,
          rw_schemaWriter = False,
          rw_cord = \<lparr>m_size = 18, m_head = [\<lparr>capacity = 256, headroom = 0, data = replicate 18 1\<rparr>]\<rparr>,
          rw_colNum = 18, rw_blockOffsets = [17], rw_encoded = False,
          rw_colName = None, rw_colType = None, rw_log = []\<rparr>"
  by (simp add: replicate_numeral rw_eval)

lemma power2_less_imp: "(2::nat) ^ n \<le> a \<Longrightarrow> a < 2 ^ m \<Longrightarrow> n < m"
proof (rule ccontr)
  assume a: "(2::nat) ^ n \<le> a" "a < 2 ^ m" and "\<not> n < m"
  then have "m \<le> n" by simp
  then have "(2::nat) ^ m \<le> 2 ^ n" by (rule power_increasing) simp
  with a show False by linarith
qed

lemma low_bits_disjoint:
  assumes "a < 2 ^ 5" shows "(a::nat) AND push_bit 5 b = 0"
proof (rule bit_eqI)
  fix n
  have "bit a n \<Longrightarrow> n < 5"
  proof -
    assume "bit a n"
    then have "2 ^ n \<le> a" by (rule bit_nat_ge)
    then show "n < 5" using assms by (rule power2_less_imp)
  qed
  then show "bit (a AND push_bit 5 b) n = bit (0::nat) n"
    by (auto simp: bit_and_iff bit_push_bit_iff)
qed

lemma unat_of_nat8: "unat (word_of_nat m :: byte) = m mod 256"
  by (simp add: unat_of_nat)

lemma header_byte_value:
  assumes "a < 8" "b < 8"
  shows "unat (word_of_nat a OR word_of_nat (push_bit 5 b) :: byte) = a + 32 * b"
proof -
  have d: "a AND push_bit 5 b = 0" using assms(1) by (intro low_bits_disjoint) simp
  have o: "a OR push_bit 5 b = a + 32 * b"
    using disjunctive_add_eq_or[OF d] by (simp add: push_bit_eq_mult)
  have "(word_of_nat a OR word_of_nat (push_bit 5 b) :: byte) = word_of_nat (a OR push_bit 5 b)"
    by (simp only: of_nat_or_eq)
  then have "unat (word_of_nat a OR word_of_nat (push_bit 5 b) :: byte) = (a + 32 * b) mod 256"
    by (simp only: o unat_of_nat8)
  moreover have "a + 32 * b < 256" using assms by simp
  ultimately show ?thesis by simp
qed

lemma header_byte_plain:
  assumes "a < 8"
  shows "unat (word_of_nat a :: byte) = a"
  using assms by (simp add: unat_of_nat)

lemma calcOccupiedBytes_below_2_56:
  assumes "v < 2 ^ 56" shows "calcOccupiedBytes v \<le> 7"
proof (cases "v = 0")
  case True
  then show ?thesis by (simp add: calcOccupiedBytes_def)
next
  case False
  have "unat v < 2 ^ 56" using assms by (simp add: word_less_nat_alt)
  then have lt: "unat v < 256 ^ 7" by simp
  have ge: "(256::nat) ^ (calcOccupiedBytes v - 1) \<le> unat v"
    using calcOccupiedBytes_least[OF False] .
  have "calcOccupiedBytes v - 1 < 7"
  proof (rule ccontr)
    assume "\<not> calcOccupiedBytes v - 1 < 7"
    then have "7 \<le> calcOccupiedBytes v - 1" by simp
    then have "(256::nat) ^ 7 \<le> 256 ^ (calcOccupiedBytes v - 1)"
      by (rule power_increasing) simp
    with ge lt show False by linarith
  qed
  then show ?thesis by simp
qed

lemma header_written_layout:
  assumes "getVersion (rw_schema w) < 2 ^ 56"
  shows "\<exists>hdr. fst (header_written w) =
           hdr # word_bytes (versionWidth w) (getVersion (rw_schema w))
             @ concat (map (\<lambda>offset. word_bytes (offsetWidth w) (word_of_nat offset :: uint64))
                         (rw_blockOffsets w))
         \<and> unat hdr = (offsetWidth w - 1) + 32 * versionWidth w"
proof -
  let ?ow = "calcOccupiedBytes (word_of_nat (Cord_size (rw_cord w)))"
  let ?vb = "calcOccupiedBytes (getVersion (rw_schema w))"
  have ow: "?ow - 1 < 8" using calcOccupiedBytes_range[of "word_of_nat (Cord_size (rw_cord w))"] by linarith
  have vb: "?vb < 8" using calcOccupiedBytes_below_2_56[OF assms] by simp
  show ?thesis
  proof (cases "0 < getVersion (rw_schema w)")
    case True
    then show ?thesis
      using header_byte_value[OF ow vb]
      by (simp add: header_written_def Let_def offsetWidth_def versionWidth_def)
  next
    case False
    then show ?thesis
      using header_byte_plain[OF ow]
      by (simp add: header_written_def Let_def offsetWidth_def versionWidth_def word_bytes_def)
  qed
qed

lemma offsets_fit:
  assumes "RowWriter_ok w" "Cord_size (rw_cord w) < 2 ^ 64"
  shows "list_all (\<lambda>offset. offset < 256 ^ offsetWidth w) (rw_blockOffsets w)"
proof -
  have u: "unat (word_of_nat (Cord_size (rw_cord w)) :: uint64) = Cord_size (rw_cord w)"
    using assms(2) by (simp only: unat_of_nat64 mod_less)
  have "Cord_size (rw_cord w) < 256 ^ offsetWidth w"
    using calcOccupiedBytes_fits[of "word_of_nat (Cord_size (rw_cord w))"] u
    by (simp add: offsetWidth_def)
  with assms(1) show ?thesis
    by (auto simp: RowWriter_ok_def list_all_iff)
qed

lemma row18_run:
  "rw_run h (replicate 18 (Put (VBool True))) (RowWriter_new (Some schema18)) = Inr row18"
  unfolding row18_def schema18_def by (rule bools18)

lemma calcOccupiedBytes_0: "calcOccupiedBytes 0 = 1" by (simp add: calcOccupiedBytes_def)

lemma calcOccupiedBytes_18: "calcOccupiedBytes 18 = 1" by code_simp

lemma calcOccupiedBytes_19: "calcOccupiedBytes 19 = 1" by code_simp

lemma calcOccupiedBytes_1: "calcOccupiedBytes 1 = 1" by code_simp

lemma calcOccupiedBytes_2_56: "calcOccupiedBytes 72057594037927936 = 8" by code_simp

lemma row18_facts:
  "Cord_ok (rw_cord row18)" "fully_written row18" "\<not> rw_encoded row18" "RowWriter_ok row18"
  "RowWriter_size row18 = 20" "offsetWidth row18 = 1" "versionWidth row18 = 0"
  by (simp_all add: row18_def schema18_def Cord_ok_def IOBuf_ok_def fully_written_def
      getNumFields_def RowWriter_ok_def RowWriter_size_def offsetWidth_def versionWidth_def
      getVersion_def Cord_size_def calcOccupiedBytes_18)

lemma row18_encode:
  "encode h row18 =
     Inr (0 # 17 # replicate 18 1,
          row18\<lparr>rw_cord := \<lparr>m_size = 20,
                              m_head = [\<lparr>capacity = 13, headroom = 10, data = [0, 17]\<rparr>,
                                        \<lparr>capacity = 256, headroom = 0, data = replicate 18 1\<rparr>]\<rparr>,
                 rw_encoded := True\<rparr>)"
  by (simp add: row18_def schema18_def encode_def encodeTo_def encodeToIOBuf_def pad_remaining_def
      write_Skip_def attach_header_def header_written_def getNumFields_def getVersion_def
      prependHeader_def Cord_clone_def appendTo_def Cord_apply_def Cord_empty_def Cord_size_def
      calcOccupiedBytes_18 calcOccupiedBytes_0 word_bytes_def Let_def)

lemma versioned_row_run:
  "rw_run h [Put (VBool True)]
     (RowWriter_new (Some \<lparr>schemaVersion = ver, schemaFields = [(None, BOOL)]\<rparr>))
   = Inr (versioned_row ver)"
  by (simp add: versioned_row_def rw_eval)

lemma pad_remaining_keeps:
  assumes "RowWriter_ok w" "pad_remaining h w = Inr w1"
  shows "RowWriter_ok w1 \<and> rw_schema w1 = rw_schema w \<and> rw_encoded w1 = rw_encoded w"
  using assms write_Skip_ok[of w h _ w1]
  by (auto simp: pad_remaining_def split: if_splits)

lemma calcOccupiedBytes_300: "calcOccupiedBytes 300 = 2" by code_simp

lemma versioned_row_facts:
  "RowWriter_ok (versioned_row ver)" "\<not> rw_encoded (versioned_row ver)"
  "pad_remaining h (versioned_row ver) = Inr (versioned_row ver)"
  "getVersion (rw_schema (versioned_row ver)) = ver"
  "Cord_size (rw_cord (versioned_row ver)) = 1"
  "Cord_str (rw_cord (versioned_row ver)) = [1]"
  "rw_blockOffsets (versioned_row ver) = []"
  "offsetWidth (versioned_row ver) = 1"
  by (simp_all add: versioned_row_def RowWriter_ok_def Cord_ok_def IOBuf_ok_def Cord_size_def
      pad_remaining_def write_Skip_def getNumFields_def getVersion_def Cord_str_def appendTo_def
      Cord_empty_def Cord_apply_def offsetWidth_def calcOccupiedBytes_1)



lemma write_finish:
  assumes "body = Inr w2"
  shows "\<exists>w'. and_then body (\<lambda>w2. Inr (RW_CLEAN_UP_WRITE w2)) = Inr w'
          \<and> rw_colNum w' = rw_colNum w2 + 1 \<and> rw_cord w' = rw_cord w2 \<and> rw_log w' = rw_log w2"
  using assms by (simp add: RW_CLEAN_UP_WRITE_fields)








text \<open>
  The layout of the header for a schema version below \<open>2^56\<close>. Let \<open>w1\<close> be the writer after
  the padding of its row (with a body below \<open>2^64\<close> bytes). Then the output of
  \<open>encodeToIOBuf\<close> is: one header byte, whose low five bits hold \<open>offsetWidth - 1\<close> and
  whose three high bits hold \<open>versionWidth\<close> (0 when the version is 0); the low
  \<open>versionWidth\<close> bytes of the version (none when the version is 0); each recorded block
  offset in \<open>offsetWidth\<close> bytes, in the order recorded, which is ascending, and each offset
  fits its bytes; then the bytes of the body.
\<close>

lemma header_layout_below_2_56:
  assumes "RowWriter_ok w" and "\<not> rw_encoded w" and "pad_remaining h w = Inr w1"
    and "getVersion (rw_schema w) < 2 ^ 56" and "Cord_size (rw_cord w1) < 2 ^ 64"
  shows "\<exists>out w' hdr. encodeToIOBuf h w = Inr (out, w')
           \<and> chain_bytes out =
               hdr # word_bytes (versionWidth w1) (getVersion (rw_schema w1))
                 @ concat (map (\<lambda>offset. word_bytes (offsetWidth w1) (word_of_nat offset :: uint64))
                             (rw_blockOffsets w1))
                 @ Cord_str (rw_cord w1)
           \<and> unat hdr mod 32 = offsetWidth w1 - 1
           \<and> unat hdr div 32 = versionWidth w1
           \<and> (getVersion (rw_schema w1) = 0 \<longrightarrow> versionWidth w1 = 0)
           \<and> (0 < getVersion (rw_schema w1) \<longrightarrow>
                 versionWidth w1 = calcOccupiedBytes (getVersion (rw_schema w1)))
           \<and> sorted (rw_blockOffsets w1)
           \<and> list_all (\<lambda>offset. offset < 256 ^ offsetWidth w1) (rw_blockOffsets w1)
           \<and> rw_schema w1 = rw_schema w"
proof -
  from pad_remaining_keeps[OF assms(1,3)]
  have ok1: "RowWriter_ok w1" and sch: "rw_schema w1 = rw_schema w" by simp_all
  from attach_header_total[of w1] obtain out w' where a: "attach_header w1 = Inr (out, w')"
    by blast
  then have e: "encodeToIOBuf h w = Inr (out, w')"
    using assms(2,3) by (simp add: encodeToIOBuf_def)
  have c1: "Cord_ok (rw_cord w1)" using ok1 by (simp add: RowWriter_ok_def)
  have v1: "getVersion (rw_schema w1) < 2 ^ 56" using assms(4) sch by simp
  from header_written_layout[OF v1] obtain hdr where
    h: "fst (header_written w1) =
           hdr # word_bytes (versionWidth w1) (getVersion (rw_schema w1))
             @ concat (map (\<lambda>offset. word_bytes (offsetWidth w1) (word_of_nat offset :: uint64))
                         (rw_blockOffsets w1))"
    and u: "unat hdr = (offsetWidth w1 - 1) + 32 * versionWidth w1"
    by blast
  have ow: "offsetWidth w1 - 1 < 32"
    using calcOccupiedBytes_range[of "word_of_nat (Cord_size (rw_cord w1))"]
    unfolding offsetWidth_def by linarith
  have lo: "unat hdr mod 32 = offsetWidth w1 - 1" and hi: "unat hdr div 32 = versionWidth w1"
    using u ow by simp_all
  have bytes: "chain_bytes out =
               hdr # word_bytes (versionWidth w1) (getVersion (rw_schema w1))
                 @ concat (map (\<lambda>offset. word_bytes (offsetWidth w1) (word_of_nat offset :: uint64))
                             (rw_blockOffsets w1))
                 @ Cord_str (rw_cord w1)"
    using attach_header_bytes(1)[OF c1 a] h by simp
  have vw: "(getVersion (rw_schema w1) = 0 \<longrightarrow> versionWidth w1 = 0)
      \<and> (0 < getVersion (rw_schema w1) \<longrightarrow>
            versionWidth w1 = calcOccupiedBytes (getVersion (rw_schema w1)))"
    by (simp add: versionWidth_def)
  have so: "sorted (rw_blockOffsets w1)" using ok1 by (simp add: RowWriter_ok_def)
  note fit = offsets_fit[OF ok1 assms(5)]
  from e bytes lo hi vw so fit sch show ?thesis by blast
qed

text \<open>
  One boolean under schema version 300: the header byte has 0 in its low bits and 2 in
  its high bits, the version takes the two bytes \<open>2C 01\<close>, there are no offsets, and the
  body is the byte \<open>01\<close>.
\<close>

lemma header_layout_example:
  "\<exists>out w' hdr. encodeToIOBuf example_host (versioned_row 300) = Inr (out, w')
      \<and> chain_bytes out = hdr # [0x2C, 0x01] @ [] @ [0x01]
      \<and> unat hdr mod 32 = 0 \<and> unat hdr div 32 = 2"
proof -
  have v: "(300 :: uint64) < 2 ^ 56" by simp
  have vw: "versionWidth (versioned_row 300) = 2"
    by (simp add: versionWidth_def versioned_row_facts calcOccupiedBytes_300)
  have vb: "word_bytes 2 (300 :: uint64) = [0x2C, 0x01]"
    by (simp add: word_bytes_def drop_bit_eq_div upt_rec)
  from header_layout_below_2_56[OF versioned_row_facts(1)[of 300] versioned_row_facts(2)[of 300]
      versioned_row_facts(3)[of example_host 300]]
  show ?thesis
    by (auto simp: versioned_row_facts vw vb)
qed

text \<open>
  \<open>Skip\<close> at work on new writers. \<open>Skip(34)\<close> pads the 34 booleans of \<open>schema34\<close> and records
  the body sizes 17 and 33, after the fields 16 and 32. \<open>encode\<close> on a new writer for
  \<open>schema18\<close> pads all 18 fields by its own \<open>Skip\<close> and returns 20 bytes: the header byte, the
  offset 17 in one byte, and 18 bytes of \<open>false\<close>.
\<close>

lemma skip34_run:
  "write_Skip h 34 (RowWriter_new (Some schema34)) =
     Inr \<lparr>rw_schema = schema34, rw_schemaWriter = False,
          rw_cord = \<lparr>m_size = 34,
                     m_head = [\<lparr>capacity = 256, headroom = 0, data = replicate 34 0\<rparr>]\<rparr>,
          rw_colNum = 34, rw_blockOffsets = [17, 33], rw_encoded = False,
          rw_colName = None, rw_colType = None, rw_log = []\<rparr>"
  by (simp add: schema34_def replicate_numeral rw_eval write_Skip_def skip_loop.simps
      int64_t_def int32_t_def drop_bit_eq_div push_bit_eq_mult)

lemma skip18_encode:
  "encode h (RowWriter_new (Some schema18)) =
     Inr (0 # 17 # replicate 18 0,
          \<lparr>rw_schema = schema18, rw_schemaWriter = False,
           rw_cord = \<lparr>m_size = 20,
                      m_head = [\<lparr>capacity = 13, headroom = 10, data = [0, 17]\<rparr>,
                                \<lparr>capacity = 256, headroom = 0, data = replicate 18 0\<rparr>]\<rparr>,
           rw_colNum = 18, rw_blockOffsets = [17], rw_encoded = True,
           rw_colName = None, rw_colType = None, rw_log = []\<rparr>)"
  by (simp add: schema18_def replicate_numeral rw_eval write_Skip_def skip_loop.simps
      int64_t_def int32_t_def drop_bit_eq_div push_bit_eq_mult
      encode_def encodeTo_def encodeToIOBuf_def pad_remaining_def attach_header_def
      header_written_def prependHeader_def Cord_clone_def appendTo_def Cord_apply_def
      Cord_empty_def calcOccupiedBytes_18 calcOccupiedBytes_0)

text \<open>
  The sum \<open>colNum_ + skip.toSkip_\<close> wraps around. After \<open>Skip(1)\<close> on a new writer for
  \<open>schema18\<close>, \<open>Skip(2^63 - 1)\<close> forms \<open>1 + (2^63 - 1)\<close>, which is \<open>- 2^63\<close> in \<open>int64_t\<close>; the
  minimum with the field count is that sum, its low 32 bits are 0, the loop does not run
  and the column index is set back to 0. \<open>encode\<close> then pads 18 fields behind the one that
  is there and returns 21 bytes, with the offset 18.
\<close>

lemma write_Skip_wraps:
  "rw_run h [Skip 1, Skip 9223372036854775807] (RowWriter_new (Some schema18)) =
     Inr \<lparr>rw_schema = schema18, rw_schemaWriter = False,
          rw_cord = \<lparr>m_size = 1,
                     m_head = [\<lparr>capacity = 256, headroom = 0, data = [0]\<rparr>]\<rparr>,
          rw_colNum = 0, rw_blockOffsets = [], rw_encoded = False,
          rw_colName = None, rw_colType = None, rw_log = []\<rparr>"
  "encode h \<lparr>rw_schema = schema18, rw_schemaWriter = False,
          rw_cord = \<lparr>m_size = 1,
                     m_head = [\<lparr>capacity = 256, headroom = 0, data = [0]\<rparr>]\<rparr>,
          rw_colNum = 0, rw_blockOffsets = [], rw_encoded = False,
          rw_colName = None, rw_colType = None, rw_log = []\<rparr> =
     Inr (0 # 18 # replicate 19 0,
          \<lparr>rw_schema = schema18, rw_schemaWriter = False,
           rw_cord = \<lparr>m_size = 21,
                      m_head = [\<lparr>capacity = 13, headroom = 10, data = [0, 18]\<rparr>,
                                \<lparr>capacity = 256, headroom = 0, data = replicate 19 0\<rparr>]\<rparr>,
           rw_colNum = 18, rw_blockOffsets = [18], rw_encoded = True,
           rw_colName = None, rw_colType = None, rw_log = []\<rparr>)"
  by (simp_all add: schema18_def replicate_numeral rw_eval write_Skip_def skip_loop.simps
      int64_t_def int32_t_def drop_bit_eq_div push_bit_eq_mult
      encode_def encodeTo_def encodeToIOBuf_def pad_remaining_def attach_header_def
      header_written_def prependHeader_def Cord_clone_def appendTo_def Cord_apply_def
      Cord_empty_def calcOccupiedBytes_19 calcOccupiedBytes_0)

section \<open>Claims\<close>

text \<open>
  Claim C6. For every unsigned 64-bit \<open>v\<close>, \<open>calcOccupiedBytes v\<close> is 1 when \<open>v = 0\<close> and
  otherwise the number of bits of \<open>v\<close> divided by 8 and rounded up; it lies in 1..8 and is
  the least byte count (at least 1) in which \<open>v\<close> fits. At the boundaries: 0 and 255 need
  one byte, 256 and 65535 two, 65536 three, \<open>2^63\<close> eight.
\<close>

theorem calcOccupiedBytes_minimal_width:
  "calcOccupiedBytes v = (if v = 0 then 1 else (floorlog 2 (unat v) + 7) div 8)
   \<and> calcOccupiedBytes v \<in> {1..8}
   \<and> calcOccupiedBytes v = (LEAST k. 1 \<le> k \<and> unat v < 256 ^ k)
   \<and> calcOccupiedBytes 0 = 1
   \<and> calcOccupiedBytes 255 = 1
   \<and> calcOccupiedBytes 256 = 2
   \<and> calcOccupiedBytes 65535 = 2
   \<and> calcOccupiedBytes 65536 = 3
   \<and> calcOccupiedBytes 9223372036854775808 = 8"
proof -
  have a: "calcOccupiedBytes v = (if v = 0 then 1 else (floorlog 2 (unat v) + 7) div 8)"
    using calcOccupiedBytes_bitlength[of v] by (simp add: calcOccupiedBytes_def)
  have b: "calcOccupiedBytes v \<in> {1..8}"
    using calcOccupiedBytes_range[of v] by simp
  have c: "calcOccupiedBytes v = (LEAST k. 1 \<le> k \<and> unat v < 256 ^ k)"
    by (rule calcOccupiedBytes_Least)
  have v0: "calcOccupiedBytes 0 = 1" by (simp add: calcOccupiedBytes_def)
  have v1: "calcOccupiedBytes 255 = 1" by code_simp
  have v2: "calcOccupiedBytes 256 = 2" by code_simp
  have v3: "calcOccupiedBytes 65535 = 2" by code_simp
  have v4: "calcOccupiedBytes 65536 = 3" by code_simp
  have v5: "calcOccupiedBytes 9223372036854775808 = 8" by code_simp
  from a b c v0 v1 v2 v3 v4 v5 show ?thesis by blast
qed

text \<open>
  Claim C1. Appending any sequence of pieces (raw bytes, strings, fixed-width scalars) to
  a Cord never fails, and afterwards the views handed to a visitor by \<open>apply\<close>,
  concatenated in chain order, are the views of the Cord before followed by exactly the
  bytes of the pieces in the order written; \<open>str()\<close> returns the same bytes and \<open>size()\<close>
  has grown by their number. Every append may take any of the branches of
  \<open>makeRoomForWrite\<close> (first buffer, enough room, growth in place, new chained buffer).
  The Cord is one that satisfies the invariant of \<open>size()\<close> and was only appended to (the
  empty Cord and a Cord constructed with a reserve are such, and the result is one again);
  each piece is shorter than \<open>2^60\<close> bytes, so that no \<open>size_t\<close> sum wraps.
\<close>

theorem Cord_appends_content:
  assumes "Cord_ok c" and "tail_bounded c"
    and "\<forall>p \<in> set ps. length (piece_bytes p) < 2 ^ 60"
  shows "\<exists>c'. Cord_appends ps c = Inr c'
           \<and> concat (Cord_views c') = concat (Cord_views c) @ concat (map piece_bytes ps)
           \<and> Cord_str c' = Cord_str c @ concat (map piece_bytes ps)
           \<and> Cord_size c' = Cord_size c + length (concat (map piece_bytes ps))
           \<and> Cord_ok c' \<and> tail_bounded c'"
proof -
  from assms(3) have "list_all (\<lambda>p. length (piece_bytes p) < 2 ^ 60) ps"
    by (simp add: list_all_iff)
  from Cord_appends_ok[OF assms(1,2) this] obtain c' where
    c': "Cord_appends ps c = Inr c'" "Cord_ok c'" "tail_bounded c'"
        "chain_bytes (m_head c') = chain_bytes (m_head c) @ concat (map piece_bytes ps)"
        "m_size c' = m_size c + length (concat (map piece_bytes ps))"
    by blast
  show ?thesis
    using c' Cord_views_ok[OF assms(1)] Cord_views_ok[OF c'(2)]
      Cord_str_ok[OF assms(1)] Cord_str_ok[OF c'(2)]
    by (simp add: Cord_size_def)
qed

text \<open>Three appends to the empty Cord: the first allocates the first buffer (256 bytes),
  the second finds it more than half full and chains a new one, the third grows that one
  in place.\<close>

theorem Cord_appends_content_witness:
  "\<exists>c'. Cord_appends [Raw (replicate 200 1), Str ''ab'', Scalar (SInt32 7), Raw (replicate 100 2),
                        Raw (replicate 500 3)] Cord_new = Inr c'
     \<and> concat (Cord_views c') =
         replicate 200 1 @ [97, 98] @ [7, 0, 0, 0] @ replicate 100 2 @ replicate 500 3
     \<and> length (m_head c') = 2"
proof -
  let ?ps = "[Raw (replicate 200 1), Str ''ab'', Scalar (SInt32 7), Raw (replicate 100 2),
              Raw (replicate 500 3)]"
  have v: "concat (Cord_views Cord_new) = []"
    by (simp add: Cord_views_def Cord_apply_def Cord_empty_def Cord_size_def Cord_new_def)
  have b: "concat (map piece_bytes ?ps) =
      replicate 200 1 @ [97, 98] @ [7, 0, 0, 0] @ replicate 100 2 @ replicate 500 3"
    by (simp add: string_bytes_def word_bytes_def upt_rec)
  have sz: "\<forall>p \<in> set ?ps. length (piece_bytes p) < 2 ^ 60"
    by (simp add: string_bytes_def word_bytes_def)
  have run: "length (m_head (projr (Cord_appends ?ps Cord_new))) = 2"
    by (simp add: Cord_append_def Cord_write_def Cord_put_def makeRoomForWrite_def Cord_new_def
        makeRoomForWriteSlow_def size_t_def kMaxGrowthSize_value IOBuf_reserve_def
        alignedSize_def kBufferAlignment_def IOBuf_create_def tailroom_def string_bytes_def
        word_bytes_def)
  from Cord_appends_content[OF Cord_new_ok sz] v b run show ?thesis
    by auto
qed

text \<open>
  Claim C3, as the code has it. A request of \<open>n\<close> bytes that exceeds the tailroom of the
  last buffer \<open>t\<close> goes to \<open>makeRoomForWriteSlow\<close>. If the data of \<open>t\<close> fills at most half
  its capacity, \<open>t\<close> itself is grown by \<open>reserve\<close>: it keeps its data and gets a tailroom
  of \<open>capacity + (n - room)\<close> rounded up to a multiple of 256, and the chain keeps its
  length. Otherwise a new buffer is chained behind \<open>t\<close>, of capacity
  \<open>max (min (2 * capacity) 262144) n\<close>: the ceiling of 256 KiB caps the doubling, not the
  request, so the new buffer is larger than 256 KiB exactly when \<open>n\<close> is. Sizes are below
  \<open>2^62\<close>, so that no \<open>size_t\<close> sum wraps.
\<close>

theorem makeRoomForWrite_growth_policy:
  assumes "m_head c = xs @ [t]" and "IOBuf_ok t"
    and "tailroom t < n" and "n < 2 ^ 62" and "capacity t < 2 ^ 62"
  shows "makeRoomForWrite n c = makeRoomForWriteSlow n c
       \<and> (length (data t) \<le> capacity t div 2 \<longrightarrow>
            (\<exists>t'. makeRoomForWriteSlow n c = Inr (c\<lparr>m_head := xs @ [t']\<rparr>)
               \<and> data t' = data t
               \<and> tailroom t' = (capacity t + (n - tailroom t) + 255) div 256 * 256))
       \<and> (\<not> length (data t) \<le> capacity t div 2 \<longrightarrow>
            makeRoomForWriteSlow n c =
              Inr (c\<lparr>m_head := xs @ [t, IOBuf_create (max (min (2 * capacity t) 262144) n)]\<rparr>)
            \<and> (262144 < max (min (2 * capacity t) 262144) n) = (262144 < n))"
proof -
  have slow: "makeRoomForWrite n c = makeRoomForWriteSlow n c"
    using assms(1,3) by (simp add: makeRoomForWrite_def)
  have inplace: "\<exists>t'. makeRoomForWriteSlow n c = Inr (c\<lparr>m_head := xs @ [t']\<rparr>)
               \<and> data t' = data t
               \<and> tailroom t' = (capacity t + (n - tailroom t) + 255) div 256 * 256"
    if half: "length (data t) \<le> capacity t div 2"
  proof -
    define need where "need = n - tailroom t"
    have need: "size_t (int n - int (tailroom t)) = need"
    proof -
      have "int n - int (tailroom t) = int need" using assms(3) by (simp add: need_def)
      moreover have "need < 2 ^ 64" using assms(4) by (simp add: need_def)
      ultimately show ?thesis by (simp add: size_t_nat)
    qed
    have a: "capacity t + need + 255 < 2 ^ 64" using assms(4,5) by (simp add: need_def)
    define A where "A = alignedSize (capacity t + need)"
    have A: "A = (capacity t + need + 255) div 256 * 256"
      by (simp add: A_def alignedSize_nat[OF a])
    have A1: "capacity t + need \<le> A"
      using alignedSize_bounds(1)[OF a] by (simp add: A_def)
    have need1: "1 \<le> need" using assms(3) by (simp add: need_def)
    have tr: "tailroom t \<le> capacity t" by (simp add: tailroom_def)
    have ht: "headroom t + tailroom t \<le> capacity t"
      using assms(2) by (simp add: IOBuf_ok_def tailroom_def)
    have res: "IOBuf_reserve 0 A t = t\<lparr>capacity := length (data t) + A, headroom := 0\<rparr>"
      using A1 need1 tr ht by (simp add: IOBuf_reserve_def)
    have "makeRoomForWriteSlow n c =
        Inr (c\<lparr>m_head := xs @ [t\<lparr>capacity := length (data t) + A, headroom := 0\<rparr>]\<rparr>)"
      using half assms(1) need res
      by (simp add: makeRoomForWriteSlow_def Let_def A_def)
    moreover have "tailroom (t\<lparr>capacity := length (data t) + A, headroom := 0\<rparr>) = A"
      by (simp add: tailroom_def)
    ultimately show ?thesis using A by (auto simp: need_def)
  qed
  have chained: "makeRoomForWriteSlow n c =
              Inr (c\<lparr>m_head := xs @ [t, IOBuf_create (max (min (2 * capacity t) 262144) n)]\<rparr>)"
    if nothalf: "\<not> length (data t) \<le> capacity t div 2"
  proof -
    have "2 * capacity t < 2 ^ 64" using assms(5) by simp
    then have "size_t (int (capacity t) * 2) = 2 * capacity t"
      using size_t_nat[of "2 * capacity t"] by (simp add: mult.commute)
    then show ?thesis
      using nothalf assms(1)
      by (auto simp: makeRoomForWriteSlow_def Let_def kMaxGrowthSize_value max_def min_def)
  qed
  have ceiling: "(262144 < max (min (2 * capacity t) 262144) n) = (262144 < n)"
    by (auto simp: max_def min_def)
  from slow inplace chained ceiling show ?thesis by blast
qed

text \<open>
  The policy at the Cord of one 256-byte buffer holding 100 bytes, asked for 300 more:
  the buffer is grown in place to a tailroom of \<open>roundUp (256 + (300 - 156)) = 512\<close>.
  And at the same buffer holding 200 bytes, asked for 100 more: a buffer of 512 bytes is
  chained.
\<close>

theorem makeRoomForWrite_growth_policy_witness:
  "(\<exists>t'. makeRoomForWriteSlow 300
            \<lparr>m_size = 100, m_head = [\<lparr>capacity = 256, headroom = 0, data = replicate 100 0\<rparr>]\<rparr>
          = Inr \<lparr>m_size = 100, m_head = [t']\<rparr>
      \<and> data t' = replicate 100 0 \<and> tailroom t' = 512)
   \<and> makeRoomForWriteSlow 100
        \<lparr>m_size = 200, m_head = [\<lparr>capacity = 256, headroom = 0, data = replicate 200 0\<rparr>]\<rparr>
      = Inr \<lparr>m_size = 200, m_head = [\<lparr>capacity = 256, headroom = 0, data = replicate 200 0\<rparr>,
                                     IOBuf_create 512]\<rparr>"
  using makeRoomForWrite_growth_policy
          [of "\<lparr>m_size = 100, m_head = [\<lparr>capacity = 256, headroom = 0, data = replicate 100 0\<rparr>]\<rparr>"
              "[]" "\<lparr>capacity = 256, headroom = 0, data = replicate 100 0\<rparr>" 300]
        makeRoomForWrite_growth_policy
          [of "\<lparr>m_size = 200, m_head = [\<lparr>capacity = 256, headroom = 0, data = replicate 200 0\<rparr>]\<rparr>"
              "[]" "\<lparr>capacity = 256, headroom = 0, data = replicate 200 0\<rparr>" 100]
  by (simp add: IOBuf_ok_def tailroom_def)

text \<open>
  Claim C3 as stated fails: it promises that no newly chained buffer exceeds 256 KiB.
  Appending 200 bytes and then 300000 bytes to the empty Cord chains a buffer of
  300000 bytes behind the first one, above the ceiling \<open>kMaxGrowthSize\<close>, where
  \<open>clamp (max (2 * 256) 300000)\<close> would be 262144. And growth in place does not make the
  capacity \<open>roundUp (capacity + needed)\<close>: a buffer of 256 bytes that holds 100, asked for
  300 more, is given a tailroom of \<open>roundUp (256 + 144) = 512\<close> behind its 100 bytes, a
  capacity of 612.
\<close>

theorem makeRoomForWrite_exceeds_ceiling:
  "Cord_appends [Raw (replicate 200 0), Raw (replicate 300000 0)] Cord_new =
     Inr \<lparr>m_size = 300200,
           m_head = [\<lparr>capacity = 256, headroom = 0, data = replicate 200 0\<rparr>,
                     \<lparr>capacity = 300000, headroom = 0, data = replicate 300000 0\<rparr>]\<rparr>
   \<and> kMaxGrowthSize < 300000
   \<and> min (max (2 * 256) 300000) kMaxGrowthSize \<noteq> 300000
   \<and> makeRoomForWrite 300
         \<lparr>m_size = 100, m_head = [\<lparr>capacity = 256, headroom = 0, data = replicate 100 0\<rparr>]\<rparr> =
       Inr \<lparr>m_size = 100, m_head = [\<lparr>capacity = 612, headroom = 0, data = replicate 100 0\<rparr>]\<rparr>
   \<and> alignedSize (256 + (300 - 156)) = 512 \<and> alignedSize (256 + 300) = 768"
  by (simp add: Cord_append_def Cord_write_def Cord_put_def makeRoomForWrite_def Cord_new_def
     makeRoomForWriteSlow_def size_t_def kMaxGrowthSize_value IOBuf_reserve_def
     alignedSize_def kBufferAlignment_def IOBuf_create_def tailroom_def)

text \<open>
  Claim C10. \<open>Cord::operator<<(const Cord& rhs)\<close>: when \<open>rhs\<close> is empty the Cord is
  returned unchanged; when \<open>rhs\<close> is not empty and this Cord has a null head, the chaining
  step dereferences the null head; when this Cord owns at least one buffer, the call
  succeeds, the content is the content before followed by the content of \<open>rhs\<close>, the size is
  the sum, and (for a non-empty \<open>rhs\<close>) the chain is the old chain, untouched, followed by
  one new buffer that holds a copy of all of \<open>rhs\<close>. \<open>rhs\<close> is read only: it is an argument
  of the function and no part of the result refers to it. Both Cords satisfy the invariant
  of \<open>size()\<close>.
\<close>

theorem Cord_append_cord_contract:
  "(Cord_size rhs = 0 \<longrightarrow> Cord_append_cord rhs c = Inr c)
   \<and> (Cord_ok rhs \<and> Cord_size rhs \<noteq> 0 \<and> m_head c = [] \<longrightarrow>
        Cord_append_cord rhs c = Inl NullDeref)
   \<and> (Cord_ok rhs \<and> Cord_ok c \<and> m_head c \<noteq> [] \<longrightarrow>
        (\<exists>c'. Cord_append_cord rhs c = Inr c' \<and> Cord_ok c'
            \<and> Cord_str c' = Cord_str c @ Cord_str rhs
            \<and> Cord_size c' = Cord_size c + Cord_size rhs
            \<and> (Cord_size rhs \<noteq> 0 \<longrightarrow>
                  m_head c' = m_head c @
                    [\<lparr>capacity = Cord_size rhs, headroom = 0, data = Cord_str rhs\<rparr>])))"
  using Cord_append_cord_empty[of rhs c] Cord_append_cord_null[of rhs c]
    Cord_append_cord_content[of rhs c]
  by blast

text \<open>Buffer A with content "ab", buffer B with content "cde", and the empty Cord.\<close>

theorem Cord_append_cord_contract_witness:
  "Cord_append_cord Cord_new
       \<lparr>m_size = 2, m_head = [\<lparr>capacity = 256, headroom = 0, data = [97, 98]\<rparr>]\<rparr>
     = Inr \<lparr>m_size = 2, m_head = [\<lparr>capacity = 256, headroom = 0, data = [97, 98]\<rparr>]\<rparr>
   \<and> Cord_append_cord
       \<lparr>m_size = 3, m_head = [\<lparr>capacity = 256, headroom = 0, data = [99, 100, 101]\<rparr>]\<rparr>
       Cord_new = Inl NullDeref
   \<and> (\<exists>c'. Cord_append_cord
         \<lparr>m_size = 3, m_head = [\<lparr>capacity = 256, headroom = 0, data = [99, 100, 101]\<rparr>]\<rparr>
         \<lparr>m_size = 2, m_head = [\<lparr>capacity = 256, headroom = 0, data = [97, 98]\<rparr>]\<rparr> = Inr c'
        \<and> Cord_str c' = [97, 98, 99, 100, 101]
        \<and> m_head c' = [\<lparr>capacity = 256, headroom = 0, data = [97, 98]\<rparr>,
                        \<lparr>capacity = 3, headroom = 0, data = [99, 100, 101]\<rparr>])"
proof -
  let ?A = "\<lparr>m_size = 2, m_head = [\<lparr>capacity = 256, headroom = 0, data = [97, 98]\<rparr>]\<rparr>"
  let ?B = "\<lparr>m_size = 3, m_head = [\<lparr>capacity = 256, headroom = 0, data = [99, 100, 101]\<rparr>]\<rparr>"
  have okA: "Cord_ok ?A" and okB: "Cord_ok ?B"
    by (simp_all add: Cord_ok_def IOBuf_ok_def)
  have sA: "Cord_str ?A = [97, 98]" and sB: "Cord_str ?B = [99, 100, 101]"
    by (simp_all add: Cord_str_ok[OF okA] Cord_str_ok[OF okB])
  have e: "Cord_size Cord_new = 0" "m_head Cord_new = []"
    by (simp_all add: Cord_size_def Cord_new_def)
  have n: "Cord_size ?B = 3" "m_head ?A \<noteq> []"
    by (simp_all add: Cord_size_def)
  from Cord_append_cord_contract[of Cord_new ?A] e
  have 1: "Cord_append_cord Cord_new ?A = Inr ?A" by blast
  from Cord_append_cord_contract[of ?B Cord_new] okB e n
  have 2: "Cord_append_cord ?B Cord_new = Inl NullDeref" by simp
  from Cord_append_cord_contract[of ?B ?A] okA okB n sA sB
  have 3: "\<exists>c'. Cord_append_cord ?B ?A = Inr c' \<and> Cord_str c' = [97, 98, 99, 100, 101]
        \<and> m_head c' = [\<lparr>capacity = 256, headroom = 0, data = [97, 98]\<rparr>,
                        \<lparr>capacity = 3, headroom = 0, data = [99, 100, 101]\<rparr>]"
    by auto
  from 1 2 3 show ?thesis by blast
qed


text \<open>
  Claim C9. After any sequence of by-value \<open>addRow\<close> calls the inline buffer is what it
  was before followed, in call order and with nothing in between, by the length prefix of
  each row and the row's bytes. The prefix of a length \<open>v\<close> is never empty and at most 10
  bytes long; all its bytes but the last have the continuation bit set, the last has it
  clear, and its 7-bit groups, low group first, spell \<open>v\<close>. \<open>addRow("ab")\<close> followed by
  \<open>addRow("cde")\<close> on an empty writer yields \<open>02 61 62 03 63 64 65\<close>.
\<close>

theorem addRow_inline_framing:
  "rsw_data (addRows rows w) =
     rsw_data w @ concat (map (\<lambda>row. encodeVarint (word_of_nat (length row)) @ row) rows)
   \<and> encodeVarint v \<noteq> [] \<and> length (encodeVarint v) \<le> 10
   \<and> list_all (\<lambda>b. bit b 7) (butlast (encodeVarint v))
   \<and> \<not> bit (last (encodeVarint v)) 7
   \<and> varint_value (encodeVarint v) = unat v
   \<and> rsw_data (addRows [string_bytes ''ab'', string_bytes ''cde''] RowSetWriter_new)
       = [0x02, 0x61, 0x62, 0x03, 0x63, 0x64, 0x65]"
proof -
  have ex: "rsw_data (addRows [string_bytes ''ab'', string_bytes ''cde''] RowSetWriter_new)
       = [0x02, 0x61, 0x62, 0x03, 0x63, 0x64, 0x65]"
    by (simp add: addRow_def writeRowLength_def RowSetWriter_new_def string_bytes_def
        encodeVarint_small)
  from addRows_data[of rows w] encodeVarint_nonempty[of v] encodeVarint_length_10[of v]
    encodeVarint_continuation[of v] varint_value_encode[of v] ex
  show ?thesis by blast
qed

text \<open>A row of 300 bytes: its prefix is the two bytes \<open>AC 02\<close>.\<close>

theorem addRow_inline_framing_witness:
  "rsw_data (addRows [replicate 300 7] RowSetWriter_new) = [0xAC, 0x02] @ replicate 300 7
   \<and> varint_value [0xAC, 0x02] = 300"
proof -
  have e: "encodeVarint 300 = [0xAC, 0x02]"
    by (simp add: encodeVarint.simps[of 300] encodeVarint.simps[of 2] drop_bit_eq_div)
  from addRow_inline_framing[of "[replicate 300 7]" RowSetWriter_new 300] e
  show ?thesis by (simp add: RowSetWriter_new_def)
qed

text \<open>
  Claim C2. For a writer that is not finalized and whose row is fully written (every
  field of the given schema written or skipped, or the schema built by the writer),
  whatever the version of the schema: finalizing succeeds, and the number \<open>size()\<close> returns
  beforehand is the exact byte length of the buffer chain that \<open>encodeToIOBuf\<close> returns,
  which holds the same bytes as the string \<open>encode\<close> returns. \<open>size()\<close> is
  \<open>bodySize + offsetWidth * count + versionWidth + 1\<close>, with \<open>versionWidth = 0\<close> for version 0;
  it is a function of the writer and returns no new state.
\<close>

theorem RowWriter_size_is_encoded_length:
  assumes "Cord_ok (rw_cord w)" and "fully_written w" and "\<not> rw_encoded w"
  shows "\<exists>out w'. encodeToIOBuf h w = Inr (out, w')
           \<and> length (chain_bytes out) = RowWriter_size w
           \<and> encode h w = Inr (chain_bytes out, w')
           \<and> RowWriter_size w =
               Cord_size (rw_cord w) + offsetWidth w * length (rw_blockOffsets w)
                 + versionWidth w + 1
           \<and> (getVersion (rw_schema w) = 0 \<longrightarrow> versionWidth w = 0)"
proof -
  from attach_header_total[of w] obtain out w' where a: "attach_header w = Inr (out, w')"
    by blast
  then have e: "encodeToIOBuf h w = Inr (out, w')"
    using assms(2,3) by (simp add: encodeToIOBuf_fully_written)
  note ah = attach_header_bytes[OF assms(1) a]
  have len: "length (chain_bytes out) = RowWriter_size w"
    using ah(1) Cord_str_ok[OF assms(1)] assms(1) header_written_size[of w]
    by (simp add: length_chain_bytes Cord_ok_def Cord_size_def)
  have "Cord_str (rw_cord w') = chain_bytes out"
    using Cord_str_ok[OF ah(5)] ah(2) by simp
  then have enc: "encode h w = Inr (chain_bytes out, w')"
    using e assms(3) by (simp add: encode_def encodeTo_def Cord_str_def)
  have f: "RowWriter_size w =
      Cord_size (rw_cord w) + offsetWidth w * length (rw_blockOffsets w) + versionWidth w + 1"
    by (simp add: RowWriter_size_def offsetWidth_def versionWidth_def Let_def)
  have v: "getVersion (rw_schema w) = 0 \<longrightarrow> versionWidth w = 0"
    by (simp add: versionWidth_def)
  from e len enc f v show ?thesis by blast
qed

text \<open>The row of 18 booleans: \<open>size()\<close> is 20 and the encoded row has 20 bytes.\<close>

theorem RowWriter_size_is_encoded_length_witness:
  "\<exists>out w'. encodeToIOBuf example_host row18 = Inr (out, w')
      \<and> length (chain_bytes out) = 20
      \<and> encode example_host row18 = Inr (chain_bytes out, w')"
  using RowWriter_size_is_encoded_length[OF row18_facts(1,2,3), of example_host]
  by (auto simp: row18_facts)

text \<open>
  Claim C8. If \<open>encodeToIOBuf\<close> returns a chain and leaves the writer in a state, calling
  it again in that state returns the same chain and the same state: the writer is
  finalized, the second call only clones the chain, no second header is put in front, and
  the block offsets and the body are as they were. The same holds for \<open>encode\<close> and its
  string.
\<close>

theorem finalize_idempotent:
  "(encodeToIOBuf h w = Inr (out, w') \<longrightarrow>
      encodeToIOBuf h w' = Inr (out, w') \<and> rw_encoded w' \<and> m_head (rw_cord w') = out)
   \<and> (encode h w = Inr (bytes, w'') \<longrightarrow> encode h w'' = Inr (bytes, w'') \<and> rw_encoded w'')"
  using encodeToIOBuf_idem[of h w out w'] encodeToIOBuf_result[of h w out w']
    encode_idem[of h w bytes w'']
  by blast

text \<open>The row of 18 booleans, encoded twice: the same 20 bytes and the same state.\<close>

theorem finalize_idempotent_witness:
  "encode example_host row18 =
     Inr (0 # 17 # replicate 18 1,
          row18\<lparr>rw_cord := \<lparr>m_size = 20,
                              m_head = [\<lparr>capacity = 13, headroom = 10, data = [0, 17]\<rparr>,
                                        \<lparr>capacity = 256, headroom = 0, data = replicate 18 1\<rparr>]\<rparr>,
                 rw_encoded := True\<rparr>)
   \<and> encode example_host
        (row18\<lparr>rw_cord := \<lparr>m_size = 20,
                              m_head = [\<lparr>capacity = 13, headroom = 10, data = [0, 17]\<rparr>,
                                        \<lparr>capacity = 256, headroom = 0, data = replicate 18 1\<rparr>]\<rparr>,
                 rw_encoded := True\<rparr>) =
     Inr (0 # 17 # replicate 18 1,
          row18\<lparr>rw_cord := \<lparr>m_size = 20,
                              m_head = [\<lparr>capacity = 13, headroom = 10, data = [0, 17]\<rparr>,
                                        \<lparr>capacity = 256, headroom = 0, data = replicate 18 1\<rparr>]\<rparr>,
                 rw_encoded := True\<rparr>)"
  using finalize_idempotent[of example_host row18 _ _ "0 # 17 # replicate 18 1"
      "row18\<lparr>rw_cord := \<lparr>m_size = 20,
                              m_head = [\<lparr>capacity = 13, headroom = 10, data = [0, 17]\<rparr>,
                                        \<lparr>capacity = 256, headroom = 0, data = replicate 18 1\<rparr>]\<rparr>,
                 rw_encoded := True\<rparr>"]
    row18_encode[of example_host]
  by simp

text \<open>
  Claim C5. The claim asks for a header byte whose high bits hold the version width
  whenever the schema version is greater than 0. \<open>encodeToIOBuf\<close> stores the width with
  \<open>header |= verBytes << 5\<close> in a \<open>char\<close>, which leaves it three bits, where the offset
  width is stored as \<open>offsetBytes - 1\<close> and so fits at 8. For the schema version \<open>2^56\<close> the
  version width is 8 and \<open>8 << 5\<close> falls out of the byte. \<open>encode\<close> on a new writer for a
  schema of one boolean field and that version pads the field and returns the header byte
  \<open>00\<close>, the eight bytes of the version, and the body \<open>00\<close>; after \<open>true\<close> has been written the
  body is \<open>01\<close>. The row has the 10 bytes \<open>size()\<close> counts, and the high bits of its header
  byte hold 0, not 8.
\<close>

theorem header_version_width_overflow:
  "encode example_host
     (RowWriter_new (Some \<lparr>schemaVersion = 72057594037927936, schemaFields = [(None, BOOL)]\<rparr>)) =
     Inr ([0, 0, 0, 0, 0, 0, 0, 0, 1, 0],
          \<lparr>rw_schema = \<lparr>schemaVersion = 72057594037927936, schemaFields = [(None, BOOL)]\<rparr>,
           rw_schemaWriter = False,
           rw_cord = \<lparr>m_size = 10,
                      m_head = [\<lparr>capacity = 19, headroom = 10,
                                 data = [0, 0, 0, 0, 0, 0, 0, 0, 1]\<rparr>,
                                \<lparr>capacity = 256, headroom = 0, data = [0]\<rparr>]\<rparr>,
           rw_colNum = 1, rw_blockOffsets = [], rw_encoded = True,
           rw_colName = None, rw_colType = None, rw_log = []\<rparr>)
   \<and> encode example_host (versioned_row 72057594037927936) =
     Inr ([0, 0, 0, 0, 0, 0, 0, 0, 1, 1],
          versioned_row 72057594037927936
            \<lparr>rw_cord := \<lparr>m_size = 10,
                          m_head = [\<lparr>capacity = 19, headroom = 10,
                                     data = [0, 0, 0, 0, 0, 0, 0, 0, 1]\<rparr>,
                                    \<lparr>capacity = 256, headroom = 0, data = [1]\<rparr>]\<rparr>,
              rw_encoded := True\<rparr>)
   \<and> 0 < getVersion (rw_schema (versioned_row 72057594037927936))
   \<and> versionWidth (versioned_row 72057594037927936) = 8
   \<and> RowWriter_size (versioned_row 72057594037927936) = 10
   \<and> unat (hd [0, 0, 0, 0, 0, 0, 0, 0, 1, 1 :: byte]) div 32 = 0"
  by (simp add: versioned_row_def encode_def encodeTo_def encodeToIOBuf_def pad_remaining_def
      write_Skip_def attach_header_def header_written_def getNumFields_def getVersion_def
      prependHeader_def Cord_clone_def appendTo_def Cord_apply_def Cord_empty_def Cord_size_def
      calcOccupiedBytes_1 calcOccupiedBytes_2_56 word_bytes_def Let_def versionWidth_def
      RowWriter_size_def drop_bit_eq_div upt_rec rw_eval skip_loop.simps int64_t_def int32_t_def
      push_bit_eq_mult)

text \<open>
  Claim C4. On a new writer for a schema \<open>s\<close> (of fewer than \<open>2^31\<close> fields, which the 32-bit
  \<open>skipTo\<close> of \<open>Skip\<close> can hold), let the first \<open>length fs\<close> fields be completed one by one,
  each written with a value or padded with its default by \<open>Skip(1)\<close>. Then the block
  offsets hold exactly one entry for every completed field index \<open>i\<close> with \<open>i \<noteq> 0\<close> and
  \<open>i mod 16 = 0\<close>, in order; the entry is the size the body had when field \<open>i\<close> was
  complete; there are \<open>(length fs - 1) div 16\<close> entries and none for index 0. On a writer
  whose column index lies inside its schema, \<open>Skip(k)\<close> does what \<open>k\<close> times \<open>Skip(1)\<close> does,
  as long as the sum \<open>colNum_ + k\<close> stays below \<open>2^63\<close>; so \<open>Skip(n)\<close> on a new writer, which
  pads the first \<open>n\<close> fields, records the same entries as padding them one by one. For 18
  boolean fields, written with \<open>true\<close> or all of them padded by \<open>encode\<close>: one offset is
  recorded, the offset width is 1, \<open>size()\<close> is 20 and the encoded row has 20 bytes.
\<close>

theorem block_offsets_every_16_fields:
  "(rw_run h (map field_op fs) (RowWriter_new (Some s)) = Inr w
      \<and> length fs \<le> getNumFields s \<and> getNumFields s < 2 ^ 31
      \<longrightarrow> rw_colNum w = int (length fs)
        \<and> rw_blockOffsets w =
            map (body_size_after h s fs) (filter (\<lambda>i. i mod 16 = 0) [1..<length fs])
        \<and> length (rw_blockOffsets w) = (length fs - 1) div 16)
   \<and> (within_schema w0 \<and> rw_colNum w0 + int k < 2 ^ 63 \<longrightarrow>
         rw_apply h (Skip (int k)) w0 = rw_run h (replicate k (Skip 1)) w0)
   \<and> (rw_apply h (Skip (int n)) (RowWriter_new (Some s)) = Inr wn
      \<and> n \<le> getNumFields s \<and> getNumFields s < 2 ^ 31
      \<longrightarrow> rw_colNum wn = int n
        \<and> rw_blockOffsets wn =
            map (body_size_after h s (replicate n None)) (filter (\<lambda>i. i mod 16 = 0) [1..<n])
        \<and> length (rw_blockOffsets wn) = (n - 1) div 16)
   \<and> rw_run h (map field_op (replicate 18 (Some (VBool True)))) (RowWriter_new (Some schema18))
       = Inr row18
   \<and> rw_blockOffsets row18 = [17] \<and> offsetWidth row18 = 1 \<and> RowWriter_size row18 = 20
   \<and> (\<exists>w'. encode h row18 = Inr (0 # 17 # replicate 18 1, w'))
   \<and> (\<exists>w'. encode h (RowWriter_new (Some schema18)) = Inr (0 # 17 # replicate 18 0, w')
             \<and> rw_blockOffsets w' = [17])
   \<and> length (0 # 17 # replicate 18 (1 :: byte)) = 20
   \<and> length (0 # 17 # replicate 18 (0 :: byte)) = 20"
proof -
  have a: "rw_colNum w = int (length fs)
        \<and> rw_blockOffsets w =
            map (body_size_after h s fs) (filter (\<lambda>i. i mod 16 = 0) [1..<length fs])
        \<and> length (rw_blockOffsets w) = (length fs - 1) div 16"
    if "rw_run h (map field_op fs) (RowWriter_new (Some s)) = Inr w"
      and "length fs \<le> getNumFields s" and "getNumFields s < 2 ^ 31"
    for fs w
    using fields_blockOffsets[OF that] count_boundaries[of "length fs"] by simp
  have b: "rw_apply h (Skip (int k)) w0 = rw_run h (replicate k (Skip 1)) w0"
    if ws: "within_schema w0" and r: "rw_colNum w0 + int k < 2 ^ 63"
    for k w0
  proof -
    from ws have "0 \<le> rw_colNum w0" by (simp add: within_schema_def)
    with r have "int64_t (int k) = int k" by (intro int64_t_id) simp_all
    with write_Skip_replicate[OF ws r, of h] show ?thesis by simp
  qed
  have b': "rw_colNum wn = int n
        \<and> rw_blockOffsets wn =
            map (body_size_after h s (replicate n None)) (filter (\<lambda>i. i mod 16 = 0) [1..<n])
        \<and> length (rw_blockOffsets wn) = (n - 1) div 16"
    if run: "rw_apply h (Skip (int n)) (RowWriter_new (Some s)) = Inr wn"
      and le: "n \<le> getNumFields s" and lt: "getNumFields s < 2 ^ 31"
  proof -
    have ws: "within_schema (RowWriter_new (Some s))"
      using lt by (simp add: within_schema_def RowWriter_new_def)
    have r: "rw_colNum (RowWriter_new (Some s)) + int n < 2 ^ 63"
      using le lt by (simp add: RowWriter_new_def)
    have m: "map field_op (replicate n None) = replicate n (Skip 1)"
      by (simp add: field_op_def)
    from b[OF ws r] run
    have "rw_run h (replicate n (Skip 1)) (RowWriter_new (Some s)) = Inr wn"
      by simp
    then have run': "rw_run h (map field_op (replicate n None)) (RowWriter_new (Some s)) = Inr wn"
      by (simp only: m)
    have l: "length (replicate n (None :: val option)) \<le> getNumFields s" using le by simp
    from a[OF run' l lt] show ?thesis unfolding length_replicate .
  qed
  have c: "rw_run h (map field_op (replicate 18 (Some (VBool True))))
       (RowWriter_new (Some schema18)) = Inr row18"
    using row18_run[of h] by (simp add: field_op_def)
  have d: "rw_blockOffsets row18 = [17]" by (simp add: row18_def)
  have e: "\<exists>w'. encode h row18 = Inr (0 # 17 # replicate 18 1, w')"
    using row18_encode[of h] by blast
  have f: "\<exists>w'. encode h (RowWriter_new (Some schema18)) = Inr (0 # 17 # replicate 18 0, w')
             \<and> rw_blockOffsets w' = [17]"
    using skip18_encode[of h] by simp
  have g: "length (0 # 17 # replicate 18 (1 :: byte)) = 20"
    "length (0 # 17 # replicate 18 (0 :: byte)) = 20" by simp_all
  from a b b' c d e f g row18_facts(5,6) show ?thesis by blast
qed

text \<open>
  The 34 fields of \<open>schema34\<close>, one by one: field 16 is padded by \<open>Skip(1)\<close> and field 32 is
  written with \<open>true\<close>, like the others but the last, which is padded. Two offsets are
  recorded, for the fields 16 and 32, when the body holds 17 and 33 bytes. \<open>Skip(34)\<close> on a
  new writer does what 34 times \<open>Skip(1)\<close> does and records the same two offsets.
\<close>

theorem block_offsets_every_16_fields_witness:
  "(\<exists>w. rw_run example_host
           (map field_op (replicate 16 (Some (VBool True)) @ [None]
                          @ replicate 15 (Some (VBool True)) @ [Some (VBool True), None]))
           (RowWriter_new (Some schema34))
         = Inr w
       \<and> rw_colNum w = 34
       \<and> rw_blockOffsets w =
           map (body_size_after example_host schema34
                  (replicate 16 (Some (VBool True)) @ [None]
                          @ replicate 15 (Some (VBool True)) @ [Some (VBool True), None]))
             [16, 32]
       \<and> rw_blockOffsets w = [17, 33])
   \<and> rw_apply example_host (Skip 34) (RowWriter_new (Some schema34))
       = rw_run example_host (replicate 34 (Skip 1)) (RowWriter_new (Some schema34))
   \<and> (\<exists>w. rw_apply example_host (Skip 34) (RowWriter_new (Some schema34)) = Inr w
          \<and> rw_colNum w = 34
          \<and> rw_blockOffsets w =
                map (body_size_after example_host schema34 (replicate 34 None)) [16, 32]
          \<and> rw_blockOffsets w = [17, 33])"
proof -
  let ?fs = "replicate 16 (Some (VBool True)) @ [None]
                          @ replicate 15 (Some (VBool True)) @ [Some (VBool True), None]"
  let ?w = "\<lparr>rw_schema = schema34,
          rw_schemaWriter = False,
          rw_cord = \<lparr>m_size = 34, m_head = [\<lparr>capacity = 256, headroom = 0,
             data = replicate 16 1 @ [0] @ replicate 15 1 @ [1, 0]\<rparr>]\<rparr>,
          rw_colNum = 34, rw_blockOffsets = [17, 33], rw_encoded = False,
          rw_colName = None, rw_colType = None, rw_log = []\<rparr>"
  let ?new = "RowWriter_new (Some schema34)"
  have run: "rw_run example_host (map field_op ?fs) ?new = Inr ?w"
    by (simp add: schema34_def replicate_numeral field_op_def rw_eval write_Skip_def
        skip_loop.simps int64_t_def int32_t_def drop_bit_eq_div push_bit_eq_mult)
  have len: "length ?fs \<le> getNumFields schema34" "getNumFields schema34 < 2 ^ 31"
    by (simp_all add: getNumFields_def schema34_def)
  have ws: "within_schema ?new"
    by (simp add: within_schema_def RowWriter_new_def getNumFields_def schema34_def)
  have r: "rw_colNum ?new + int 34 < 2 ^ 63" by (simp add: RowWriter_new_def)
  let ?wn = "\<lparr>rw_schema = schema34, rw_schemaWriter = False,
          rw_cord = \<lparr>m_size = 34,
                     m_head = [\<lparr>capacity = 256, headroom = 0, data = replicate 34 0\<rparr>]\<rparr>,
          rw_colNum = 34, rw_blockOffsets = [17, 33], rw_encoded = False,
          rw_colName = None, rw_colType = None, rw_log = []\<rparr>"
  have skip: "rw_apply example_host (Skip (int 34)) ?new = Inr ?wn"
    using skip34_run[of example_host] by (simp add: int64_t_id)
  have f16: "filter (\<lambda>i :: nat. i mod 16 = 0) [1..<34] = [16, 32]"
    by (simp add: upt_rec)
  note t = block_offsets_every_16_fields[of example_host ?fs schema34 ?w ?new 34 34 ?wn]
  from t run len have "rw_colNum ?w = int (length ?fs)
      \<and> rw_blockOffsets ?w =
           map (body_size_after example_host schema34 ?fs)
             (filter (\<lambda>i. i mod 16 = 0) [1..<length ?fs])"
    by blast
  moreover have "filter (\<lambda>i. i mod 16 = 0) [1..<length ?fs] = [16, 32]"
    using f16 by simp
  ultimately have A: "rw_blockOffsets ?w = map (body_size_after example_host schema34 ?fs) [16, 32]"
    by (simp only:)
  from t ws r have "rw_apply example_host (Skip (int 34)) ?new
       = rw_run example_host (replicate 34 (Skip 1)) ?new"
    by blast
  then have B: "rw_apply example_host (Skip 34) ?new
       = rw_run example_host (replicate 34 (Skip 1)) ?new"
    by simp
  from t skip len(2) have "rw_blockOffsets ?wn =
      map (body_size_after example_host schema34 (replicate 34 None))
        (filter (\<lambda>i. i mod 16 = 0) [1..<34])"
    by (simp add: getNumFields_def schema34_def)
  with f16 have "rw_blockOffsets ?wn =
      map (body_size_after example_host schema34 (replicate 34 None)) [16, 32]"
    by (simp only:)
  with skip have D: "\<exists>w. rw_apply example_host (Skip 34) ?new = Inr w
          \<and> rw_colNum w = 34
          \<and> rw_blockOffsets w =
                map (body_size_after example_host schema34 (replicate 34 None)) [16, 32]
          \<and> rw_blockOffsets w = [17, 33]"
    by simp
  have C: "rw_colNum ?w = 34 \<and> rw_blockOffsets ?w = [17, 33]" by simp
  from run A B C D show ?thesis by blast
qed




end
